theory Spec2Isabelle
  imports Main
begin

section \<open>Position model: placement text and grids\<close>

text \<open>
  A square of a grid is \<^verbatim>\<open>string | null\<close> in the source. \<open>None\<close> stands for
  \<^verbatim>\<open>null\<close> (and for \<^verbatim>\<open>undefined\<close>, which the code never tells apart from it).
  Strings are lists of characters; the model covers ASCII text.
\<close>

type_synonym Square = "string option"
type_synonym Board = "Square list list"

text \<open>\<^verbatim>\<open>!square\<close>: \<^verbatim>\<open>null\<close> and the empty string are falsy.\<close>

definition falsy :: "Square \<Rightarrow> bool" where
  "falsy sq = (case sq of None \<Rightarrow> True | Some s \<Rightarrow> s = [])"

text \<open>\<^verbatim>\<open>text.split(sep)\<close> for a one-character separator: never an empty list.\<close>

fun splitOn :: "char \<Rightarrow> string \<Rightarrow> string list" where
  "splitOn sep [] = [[]]"
| "splitOn sep (c # cs) =
     (if c = sep then [] # splitOn sep cs
      else (case splitOn sep cs of [] \<Rightarrow> [[c]] | r # rs \<Rightarrow> (c # r) # rs))"

text \<open>\<^verbatim>\<open>parts.join(sep)\<close>.\<close>

fun joinWith :: "string \<Rightarrow> string list \<Rightarrow> string" where
  "joinWith sep [] = []"
| "joinWith sep [x] = x"
| "joinWith sep (x # y # ys) = x @ sep @ joinWith sep (y # ys)"

text \<open>\<^verbatim>\<open>char >= '1' && char <= '8'\<close> and \<^verbatim>\<open>Number(char)\<close> for such a character.\<close>

definition isGap :: "char \<Rightarrow> bool" where
  "isGap c = (49 \<le> (of_char c :: nat) \<and> (of_char c :: nat) \<le> 56)"

definition gapCount :: "char \<Rightarrow> nat" where
  "gapCount c = of_char c - 48"

text \<open>The inner loop of \<^verbatim>\<open>parseFen\<close>: \<^verbatim>\<open>emptyCount\<close> times \<^verbatim>\<open>row.push(null)\<close>.\<close>

fun pushNulls :: "nat \<Rightarrow> Square list \<Rightarrow> Square list" where
  "pushNulls 0 row = row"
| "pushNulls (Suc n) row = pushNulls n (row @ [None])"

text \<open>The loop over the characters of one rank, \<open>row\<close> being the array built so far.\<close>

fun parseRank :: "string \<Rightarrow> Square list \<Rightarrow> Square list" where
  "parseRank [] row = row"
| "parseRank (c # cs) row =
     (if isGap c then parseRank cs (pushNulls (gapCount c) row)
      else parseRank cs (row @ [Some [c]]))"

text \<open>
  \<^verbatim>\<open>parseFen\<close> (the spec's \<^verbatim>\<open>parsePlacement\<close>): the first space-separated field, split
  at \<^verbatim>\<open>/\<close>, each rank parsed on its own. Nothing in it throws and nothing is validated.
\<close>

definition parseFen :: "string \<Rightarrow> Board" where
  "parseFen fen =
     (let placement = hd (splitOn (CHR '' '') fen);
          ranks = splitOn (CHR ''/'') placement
      in map (\<lambda>rank. parseRank rank []) ranks)"

subsection \<open>The simulator's placement serializer\<close>

text \<open>\<^verbatim>\<open>String(n)\<close> for a non-negative integer.\<close>

definition digitChar :: "nat \<Rightarrow> char" where
  "digitChar d = ''0123456789'' ! d"

fun showNat :: "nat \<Rightarrow> string" where
  "showNat n = (if n < 10 then [digitChar n] else showNat (n div 10) @ [digitChar (n mod 10)])"

declare showNat.simps [simp del]

text \<open>
  One step of \<^verbatim>\<open>rank.forEach\<close> in \<^verbatim>\<open>boardToPlacement\<close>, on the pair
  \<^verbatim>\<open>(empties, line)\<close>, and the flush after the loop.
\<close>

fun rankStep :: "nat \<times> string \<Rightarrow> Square \<Rightarrow> nat \<times> string" where
  "rankStep (empties, line) square =
     (if falsy square then (empties + 1, line)
      else (0, (if empties > 0 then line @ showNat empties else line) @ the square))"

fun flushLine :: "nat \<times> string \<Rightarrow> string" where
  "flushLine (empties, line) = (if empties > 0 then line @ showNat empties else line)"

definition rankToLine :: "Square list \<Rightarrow> string" where
  "rankToLine rank = flushLine (foldl rankStep (0, []) rank)"

definition boardToPlacement :: "Board \<Rightarrow> string" where
  "boardToPlacement board = joinWith ''/'' (map rankToLine board)"

subsection \<open>What the specification calls a valid placement\<close>

text \<open>The piece letters the renderer knows (the keys of \<^verbatim>\<open>pieceSrc\<close>).\<close>

definition pieceLetters :: "char set" where
  "pieceLetters = set ''prnbqkPRNBQK''"

text \<open>The number of squares a rank text stands for.\<close>

definition rankWidth :: "string \<Rightarrow> nat" where
  "rankWidth rank = sum_list (map (\<lambda>c. if isGap c then gapCount c else 1) rank)"

definition validRank :: "string \<Rightarrow> bool" where
  "validRank rank = ((\<forall>c \<in> set rank. isGap c \<or> c \<in> pieceLetters) \<and> rankWidth rank = 8)"

definition validPlacement :: "string \<Rightarrow> bool" where
  "validPlacement text =
     (length (splitOn (CHR ''/'') text) = 8 \<and> (\<forall>rank \<in> set (splitOn (CHR ''/'') text). validRank rank))"

text \<open>The cells one character of a rank stands for.\<close>

definition expand :: "char \<Rightarrow> Square list" where
  "expand c = (if isGap c then replicate (gapCount c) None else [Some [c]])"

text \<open>The piece codes of a grid, row by row, left to right.\<close>

definition pieceCodes :: "Board \<Rightarrow> string" where
  "pieceCodes board = concat (map the (filter (\<lambda>sq. sq \<noteq> None) (concat board)))"

text \<open>The boards the round trip is about: 8 rows of 8 cells.\<close>

definition grid8 :: "Board \<Rightarrow> bool" where
  "grid8 board = (length board = 8 \<and> list_all (\<lambda>row. length row = 8) board)"

text \<open>
  A cell as the round-trip claim words it (empty, or one character that is neither a
  digit 1-8 nor the rank separator), and the cell for which the round trip holds: the
  character must not be a space either, since \<^verbatim>\<open>parseFen\<close> cuts the text at the
  first space.
\<close>

definition claimedCell :: "Square \<Rightarrow> bool" where
  "claimedCell sq = (case sq of None \<Rightarrow> True
     | Some s \<Rightarrow> length s = 1 \<and> \<not> isGap (hd s) \<and> hd s \<noteq> CHR ''/'')"

definition plainCell :: "Square \<Rightarrow> bool" where
  "plainCell sq = (case sq of None \<Rightarrow> True
     | Some s \<Rightarrow> length s = 1 \<and> \<not> isGap (hd s) \<and> hd s \<noteq> CHR ''/'' \<and> hd s \<noteq> CHR '' '')"

definition spaceBoard :: Board where
  "spaceBoard =
    [[Some '' '', None, None, None, None, None, None, None],
     [None, None, None, None, None, None, None, None],
     [None, None, None, None, None, None, None, None],
     [None, None, None, None, None, None, None, None],
     [None, None, None, None, None, None, None, None],
     [None, None, None, None, None, None, None, None],
     [None, None, None, None, None, None, None, None],
     [None, None, None, None, None, None, None, None]]"

section \<open>Position model: applying a move code\<close>

datatype jsError = TypeError | SyntaxError

text \<open>
  \<^verbatim>\<open>applyUciMove\<close> mutates the board in place and may throw half-way (indexing
  \<^verbatim>\<open>undefined\<close>), so an effect is the board as it then stands together with the
  exception thrown, if any.
\<close>

type_synonym effect = "Board \<times> jsError option"

fun andThen :: "effect \<Rightarrow> (Board \<Rightarrow> effect) \<Rightarrow> effect" where
  "andThen (b, None) f = f b"
| "andThen (b, Some e) f = (b, Some e)"

text \<open>\<^verbatim>\<open>files.indexOf(ch)\<close>, with \<open>-1\<close> for a character that is no file letter.\<close>

definition fileIndex :: "char \<Rightarrow> int" where
  "fileIndex c =
     (if 97 \<le> (of_char c :: nat) \<and> (of_char c :: nat) \<le> 104 then int (of_char c) - 97 else -1)"

text \<open>
  \<^verbatim>\<open>Number(ch)\<close> for a one-character string: a decimal digit is its value, white
  space is 0, anything else is \<^verbatim>\<open>NaN\<close> (\<open>None\<close>).
\<close>

definition numberOfChar :: "char \<Rightarrow> int option" where
  "numberOfChar c =
     (if 48 \<le> (of_char c :: nat) \<and> (of_char c :: nat) \<le> 57 then Some (int (of_char c) - 48)
      else if (of_char c :: nat) \<in> {9, 10, 11, 12, 13, 32} then Some 0
      else None)"

text \<open>
  \<^verbatim>\<open>squareToCoords\<close>: the row is \<^verbatim>\<open>8 - rank\<close> (\<open>None\<close> when that is \<^verbatim>\<open>NaN\<close>),
  the column is the file index. A missing character is \<^verbatim>\<open>undefined\<close>: column
  \<open>-1\<close>, row \<^verbatim>\<open>NaN\<close>.
\<close>

definition squareToCoords :: "string \<Rightarrow> int option \<times> int" where
  "squareToCoords square =
     (let file = (case square of [] \<Rightarrow> -1 | c # _ \<Rightarrow> fileIndex c);
          rank = (case square of _ # d # _ \<Rightarrow> numberOfChar d | _ \<Rightarrow> None)
      in (map_option (\<lambda>r. 8 - r) rank, file))"

text \<open>\<^verbatim>\<open>board[row]\<close>: \<open>None\<close> is \<^verbatim>\<open>undefined\<close>.\<close>

definition rowAt :: "Board \<Rightarrow> int option \<Rightarrow> Square list option" where
  "rowAt board row =
     (case row of None \<Rightarrow> None
      | Some r \<Rightarrow> if 0 \<le> r \<and> r < int (length board) then Some (board ! nat r) else None)"

text \<open>\<^verbatim>\<open>rowArray[col]\<close>: out of range reads \<^verbatim>\<open>undefined\<close>.\<close>

definition cellAt :: "Square list \<Rightarrow> int \<Rightarrow> Square" where
  "cellAt cells col = (if 0 \<le> col \<and> col < int (length cells) then cells ! nat col else None)"

text \<open>
  \<^verbatim>\<open>rowArray[col] = v\<close>: inside the array it replaces the element; past the end
  JavaScript extends the array (the holes read as \<^verbatim>\<open>undefined\<close>); at index \<open>-1\<close> it
  sets a property that is no element, so the cells stay as they are. The model does not
  keep that property: a later read at index \<open>-1\<close> gives \<^verbatim>\<open>undefined\<close> here, where
  JavaScript would give the value stored. Only a square whose file is not a letter
  \<^verbatim>\<open>a\<close> to \<^verbatim>\<open>h\<close> reaches index \<open>-1\<close>.
\<close>

definition setCell :: "Square list \<Rightarrow> int \<Rightarrow> Square \<Rightarrow> Square list" where
  "setCell cells col v =
     (if col < 0 then cells
      else if col < int (length cells) then cells[nat col := v]
      else cells @ replicate (nat col - length cells) None @ [v])"

text \<open>\<^verbatim>\<open>board[row][col]\<close> and \<^verbatim>\<open>board[row][col] = v\<close>; a missing row throws.\<close>

definition readCell :: "Board \<Rightarrow> int option \<Rightarrow> int \<Rightarrow> jsError + Square" where
  "readCell board row col =
     (case rowAt board row of None \<Rightarrow> Inl TypeError | Some cells \<Rightarrow> Inr (cellAt cells col))"

definition writeCell :: "Board \<Rightarrow> int option \<Rightarrow> int \<Rightarrow> Square \<Rightarrow> effect" where
  "writeCell board row col v =
     (case rowAt board row of
        None \<Rightarrow> (board, Some TypeError)
      | Some cells \<Rightarrow> (board[nat (the row) := setCell cells col v], None))"

text \<open>
  The body of each castling branch:
  \<^verbatim>\<open>board[r][dest] = board[r][corner]; board[r][corner] = null\<close>.
\<close>

definition rookHop :: "int \<Rightarrow> int \<Rightarrow> int \<Rightarrow> Board \<Rightarrow> effect" where
  "rookHop r corner dest board =
     (case readCell board (Some r) corner of
        Inl e \<Rightarrow> (board, Some e)
      | Inr rook \<Rightarrow>
          andThen (writeCell board (Some r) dest rook)
            (\<lambda>b. writeCell b (Some r) corner None))"

text \<open>\<^verbatim>\<open>toUpperCase\<close> and \<^verbatim>\<open>toLowerCase\<close> on ASCII text.\<close>

definition upperChar :: "char \<Rightarrow> char" where
  "upperChar c =
     (if 97 \<le> (of_char c :: nat) \<and> (of_char c :: nat) \<le> 122 then char_of (of_char c - (32::nat)) else c)"

definition lowerChar :: "char \<Rightarrow> char" where
  "lowerChar c =
     (if 65 \<le> (of_char c :: nat) \<and> (of_char c :: nat) \<le> 90 then char_of (of_char c + (32::nat)) else c)"

definition toUpperCase :: "string \<Rightarrow> string" where
  "toUpperCase s = map upperChar s"

definition toLowerCase :: "string \<Rightarrow> string" where
  "toLowerCase s = map lowerChar s"

text \<open>
  \<^verbatim>\<open>applyUciMove(board, uci)\<close>. \<^verbatim>\<open>uci.slice(0, 2)\<close> and \<^verbatim>\<open>uci.slice(2, 4)\<close> are
  the two squares; the fifth character, when there is one, is the promotion letter.
  An empty from square returns at once; the castling branches test the piece as well as
  the two squares.
\<close>

definition applyUciMove :: "Board \<Rightarrow> string \<Rightarrow> effect" where
  "applyUciMove board uci =
     (let from = take 2 uci;
          to = take 2 (drop 2 uci);
          promotion = (if length uci > 4 then Some [uci ! 4] else None);
          (fromRow, fromCol) = squareToCoords from;
          (toRow, toCol) = squareToCoords to
      in case readCell board fromRow fromCol of
           Inl e \<Rightarrow> (board, Some e)
         | Inr piece \<Rightarrow>
             if falsy piece then (board, None)
             else
               andThen (writeCell board fromRow fromCol None) (\<lambda>b1.
               andThen (if piece = Some ''K'' \<and> from = ''e1'' \<and> to = ''g1''
                        then rookHop 7 7 5 b1 else (b1, None)) (\<lambda>b2.
               andThen (if piece = Some ''K'' \<and> from = ''e1'' \<and> to = ''c1''
                        then rookHop 7 0 3 b2 else (b2, None)) (\<lambda>b3.
               andThen (if piece = Some ''k'' \<and> from = ''e8'' \<and> to = ''g8''
                        then rookHop 0 7 5 b3 else (b3, None)) (\<lambda>b4.
               andThen (if piece = Some ''k'' \<and> from = ''e8'' \<and> to = ''c8''
                        then rookHop 0 0 3 b4 else (b4, None)) (\<lambda>b5.
                 let movedPiece =
                       (case promotion of
                          None \<Rightarrow> the piece
                        | Some p \<Rightarrow>
                            if the piece = toUpperCase (the piece) then toUpperCase p
                            else toLowerCase p)
                 in writeCell b5 toRow toCol (Some movedPiece)))))))"

text \<open>
  \<^verbatim>\<open>coordsToSquare(fileIndex, rankIndex)\<close> of the renderer: the file letter
  (\<^verbatim>\<open>undefined\<close> past the eighth) followed by \<^verbatim>\<open>8 - rankIndex\<close> in decimal.
\<close>

definition coordsToSquare :: "nat \<Rightarrow> nat \<Rightarrow> string" where
  "coordsToSquare fileIdx rankIdx =
     (if fileIdx < 8 then [''abcdefgh'' ! fileIdx] else ''undefined'')
     @ (if rankIdx \<le> 8 then showNat (8 - rankIdx) else CHR ''-'' # showNat (rankIdx - 8))"

text \<open>
  The grid a move is expected to leave behind, cell by cell: the moved piece on the to
  square, nothing on the from square, and, when \<open>hop = Some (r, corner, dest)\<close>, the
  content of the corner of row \<open>r\<close> carried to \<open>dest\<close>.
\<close>

definition movedPiece :: "string \<Rightarrow> string \<Rightarrow> string" where
  "movedPiece piece promo =
     (if promo = [] then piece
      else if piece = toUpperCase piece then toUpperCase promo else toLowerCase promo)"

definition castleHop :: "string \<Rightarrow> string \<Rightarrow> string \<Rightarrow> (nat \<times> nat \<times> nat) option" where
  "castleHop piece from to =
     (if piece = ''K'' \<and> from = ''e1'' \<and> to = ''g1'' then Some (7, 7, 5)
      else if piece = ''K'' \<and> from = ''e1'' \<and> to = ''c1'' then Some (7, 0, 3)
      else if piece = ''k'' \<and> from = ''e8'' \<and> to = ''g8'' then Some (0, 7, 5)
      else if piece = ''k'' \<and> from = ''e8'' \<and> to = ''c8'' then Some (0, 0, 3)
      else None)"

definition cellAfter ::
  "Board \<Rightarrow> nat \<times> nat \<Rightarrow> nat \<times> nat \<Rightarrow> string \<Rightarrow> (nat \<times> nat \<times> nat) option \<Rightarrow> nat \<Rightarrow> nat \<Rightarrow> Square" where
  "cellAfter board fromRC toRC moved hop r c =
     (if (r, c) = toRC then Some moved
      else if (r, c) = fromRC then None
      else case hop of
             None \<Rightarrow> board ! r ! c
           | Some (hr, corner, dest) \<Rightarrow>
               if (r, c) = (hr, dest) then board ! hr ! corner
               else if (r, c) = (hr, corner) then None
               else board ! r ! c)"

text \<open>A position with a queen on e1 and a rook on h1, and one with the king on e1.\<close>

definition queenBoard :: Board where
  "queenBoard =
    [[None, None, None, None, Some ''k'', None, None, None],
     [None, None, None, None, None, None, None, None],
     [None, None, None, None, None, None, None, None],
     [None, None, None, None, None, None, None, None],
     [None, None, None, None, None, None, None, None],
     [None, None, None, None, None, None, None, None],
     [None, None, None, None, None, None, None, None],
     [None, None, None, Some ''K'', Some ''Q'', None, None, Some ''R'']]"

definition kingBoard :: Board where
  "kingBoard =
    [[None, None, None, None, Some ''k'', None, None, None],
     [Some ''P'', None, None, None, None, None, None, None],
     [None, None, None, None, None, None, None, None],
     [None, None, None, None, None, None, None, None],
     [None, None, None, None, None, None, None, None],
     [None, None, None, None, None, None, None, None],
     [None, None, None, None, None, None, None, None],
     [None, None, None, None, Some ''K'', None, None, Some ''R'']]"

section \<open>Match simulator\<close>

text \<open>
  The clocks are JavaScript numbers, that is, IEEE doubles. Every finite double is an
  integer multiple of \<open>2\<^sup>-\<^sup>1\<^sup>0\<^sup>7\<^sup>4\<close>, so \<open>Fin n\<close> stands for the number
  \<open>n / 2\<^sup>1\<^sup>0\<^sup>7\<^sup>4\<close> (the two zeros are not told apart: \<^verbatim>\<open>Math.max(0, -0)\<close> is
  \<^verbatim>\<open>0\<close>). Not every \<open>Fin n\<close> is a double: a double has a significand of 53 bits.
\<close>

datatype jsNumber = NaN | NegInf | PosInf | Fin int

definition doubleUnit :: int where
  "doubleUnit = 2 ^ 1074"

text \<open>
  The number of low bits a magnitude must lose to fit 53 bits, and the magnitude
  rounded to 53 significant bits, to the nearest with ties to the even significand.
\<close>

function shiftOf :: "nat \<Rightarrow> nat" where
  "shiftOf a = (if a < 2 ^ 53 then 0 else Suc (shiftOf (a div 2)))"
  by pat_completeness auto
termination
  by (relation "measure (\<lambda>a. a)") auto

declare shiftOf.simps [simp del]

definition roundNat :: "nat \<Rightarrow> nat" where
  "roundNat a =
     (let u = 2 ^ shiftOf a; q = a div u; r = a mod u
      in if u < 2 * r \<or> (2 * r = u \<and> odd q) then (q + 1) * u else q * u)"

text \<open>
  The double nearest to \<open>n / 2\<^sup>1\<^sup>0\<^sup>7\<^sup>4\<close>; a magnitude that rounds to
  \<open>2\<^sup>1\<^sup>0\<^sup>2\<^sup>4\<close> or more overflows to an infinity.
\<close>

definition roundDouble :: "int \<Rightarrow> jsNumber" where
  "roundDouble n =
     (let a = roundNat (nat \<bar>n\<bar>)
      in if 2 ^ 2098 \<le> a then (if n < 0 then NegInf else PosInf)
         else Fin (if n < 0 then - int a else int a))"

definition isDouble :: "jsNumber \<Rightarrow> bool" where
  "isDouble x = (case x of Fin n \<Rightarrow> roundDouble n = Fin n | _ \<Rightarrow> True)"

text \<open>The double an integer literal denotes.\<close>

definition num :: "int \<Rightarrow> jsNumber" where
  "num k = roundDouble (k * doubleUnit)"

text \<open>
  \<^verbatim>\<open>x - 200\<close> (the exact difference, rounded), \<^verbatim>\<open>Math.max(0, x)\<close>, and \<^verbatim>\<open>x <= y\<close>.
  An infinity less 200 is that infinity, and \<^verbatim>\<open>NaN\<close> goes through both operations.
\<close>

definition minus200 :: "jsNumber \<Rightarrow> jsNumber" where
  "minus200 x = (case x of Fin n \<Rightarrow> roundDouble (n - 200 * doubleUnit) | _ \<Rightarrow> x)"

definition mathMax0 :: "jsNumber \<Rightarrow> jsNumber" where
  "mathMax0 x =
     (case x of NaN \<Rightarrow> NaN | NegInf \<Rightarrow> Fin 0 | PosInf \<Rightarrow> PosInf | Fin n \<Rightarrow> Fin (max 0 n))"

fun jsLe :: "jsNumber \<Rightarrow> jsNumber \<Rightarrow> bool" where
  "jsLe NaN y = False"
| "jsLe x NaN = False"
| "jsLe NegInf y = True"
| "jsLe x PosInf = True"
| "jsLe PosInf y = False"
| "jsLe x NegInf = False"
| "jsLe (Fin a) (Fin b) = (a \<le> b)"

text \<open>\<^verbatim>\<open>Math.max(0, ms - 200)\<close>, what a clock tick makes of a remaining time.\<close>

definition tickValue :: "jsNumber \<Rightarrow> jsNumber" where
  "tickValue x = mathMax0 (minus200 x)"

datatype StreamEvent =
    OnOpen
  | MatchStarted string string
  | Clock jsNumber jsNumber
  | Move nat string string string string
  | Result string string

definition startFen :: string where
  "startFen = ''rnbqkbnr/pppppppp/8/8/8/8/PPPPPPPP/RNBQKBNR w KQkq - 0 1''"

definition mockMoves :: "(string \<times> string) list" where
  "mockMoves =
    [(''e2e4'', ''e4''), (''c7c5'', ''c5''), (''g1f3'', ''Nf3''), (''d7d6'', ''d6''),
     (''d2d4'', ''d4''), (''c5d4'', ''cxd4''), (''f3d4'', ''Nxd4''), (''g8f6'', ''Nf6''),
     (''b1c3'', ''Nc3''), (''a7a6'', ''a6''), (''f1e2'', ''Be2''), (''e7e6'', ''e6''),
     (''e1g1'', ''O-O''), (''f8e7'', ''Be7''), (''f2f4'', ''f4''), (''e8g8'', ''O-O''),
     (''c1e3'', ''Be3''), (''d8c7'', ''Qc7''), (''a2a4'', ''a4''), (''b8c6'', ''Nc6'')]"

definition createStartBoard :: Board where
  "createStartBoard =
    [[Some ''r'', Some ''n'', Some ''b'', Some ''q'', Some ''k'', Some ''b'', Some ''n'', Some ''r''],
     [Some ''p'', Some ''p'', Some ''p'', Some ''p'', Some ''p'', Some ''p'', Some ''p'', Some ''p''],
     [None, None, None, None, None, None, None, None],
     [None, None, None, None, None, None, None, None],
     [None, None, None, None, None, None, None, None],
     [None, None, None, None, None, None, None, None],
     [Some ''P'', Some ''P'', Some ''P'', Some ''P'', Some ''P'', Some ''P'', Some ''P'', Some ''P''],
     [Some ''R'', Some ''N'', Some ''B'', Some ''Q'', Some ''K'', Some ''B'', Some ''N'', Some ''R'']]"

text \<open>
  The variables the closures of \<^verbatim>\<open>createMockStream\<close> share, and the two interval
  timers: a flag says whether the interval is still installed
  (\<^verbatim>\<open>clearInterval\<close> takes it away for good; nothing installs one again).
\<close>

record sim =
  moveIndex :: nat
  whiteMs :: jsNumber
  blackMs :: jsNumber
  closed :: bool
  sideToMove :: char
  simBoard :: Board
  pgnMoves :: "string list"
  clockTimer :: bool
  moveTimer :: bool

text \<open>
  \<^verbatim>\<open>createMockStream(initialMs, handlers)\<close>: the two events fired synchronously,
  and the state the timers start from.
\<close>

definition createMockStream :: "jsNumber \<Rightarrow> StreamEvent list \<times> sim" where
  "createMockStream initialMs =
     ([OnOpen, MatchStarted ''mock'' startFen],
      \<lparr>moveIndex = 0, whiteMs = initialMs, blackMs = initialMs, closed = False,
       sideToMove = CHR ''w'', simBoard = createStartBoard, pgnMoves = [],
       clockTimer = True, moveTimer = True\<rparr>)"

text \<open>The callback of the 200 ms interval.\<close>

definition clockTick :: "sim \<Rightarrow> StreamEvent list \<times> sim" where
  "clockTick s =
     (if \<not> clockTimer s \<or> closed s then ([], s)
      else let w = tickValue (whiteMs s);
               b = tickValue (blackMs s)
           in ([Clock w b], s\<lparr>whiteMs := w, blackMs := b\<rparr>))"

text \<open>\<^verbatim>\<open>pgnMoves[pgnMoves.length - 1] += text\<close>; on an empty array no element changes.\<close>

definition appendToLast :: "string list \<Rightarrow> string \<Rightarrow> string list" where
  "appendToLast xs t = (if xs = [] then xs else butlast xs @ [last xs @ t])"

text \<open>
  The callback of the 1200 ms interval. Past the end of the script it emits the result
  and stops both timers. An exception of \<^verbatim>\<open>applyUciMove\<close> would end the callback
  there, the board left as it stands and nothing emitted.
\<close>

definition moveTick :: "sim \<Rightarrow> StreamEvent list \<times> sim" where
  "moveTick s =
     (if \<not> moveTimer s \<or> closed s then ([], s)
      else if length mockMoves \<le> moveIndex s
      then ([Result ''1-0'' ''checkmate''],
            s\<lparr>closed := True, clockTimer := False, moveTimer := False\<rparr>)
      else
        let (uci, san) = mockMoves ! moveIndex s;
            (b, thrown) = applyUciMove (simBoard s) uci
        in case thrown of
             Some e \<Rightarrow> ([], s\<lparr>simBoard := b\<rparr>)
           | None \<Rightarrow>
               let rows = (if moveIndex s mod 2 = 0
                           then pgnMoves s @ [showNat (moveIndex s div 2 + 1) @ ''. '' @ san]
                           else appendToLast (pgnMoves s) ('' '' @ san));
                   side = (if sideToMove s = CHR ''w'' then CHR ''b'' else CHR ''w'');
                   placement = boardToPlacement b;
                   position = placement @ '' '' @ [side] @ '' - - 0 1''
               in ([Move (moveIndex s + 1) uci san position (joinWith '' '' rows)],
                   s\<lparr>simBoard := b, pgnMoves := rows, sideToMove := side,
                     moveIndex := moveIndex s + 1\<rparr>))"

text \<open>The \<^verbatim>\<open>close\<close> of the returned handle.\<close>

definition closeSim :: "sim \<Rightarrow> sim" where
  "closeSim s = s\<lparr>closed := True, clockTimer := False, moveTimer := False\<rparr>"

text \<open>
  What can happen to a simulator: either interval fires, or the handle is closed. The
  two intervals are not synchronised, so a run is any sequence of these.
\<close>

datatype tick = ClockTick | MoveTick | Close

fun step :: "tick \<Rightarrow> sim \<Rightarrow> StreamEvent list \<times> sim" where
  "step ClockTick s = clockTick s"
| "step MoveTick s = moveTick s"
| "step Close s = ([], closeSim s)"

fun run :: "tick list \<Rightarrow> sim \<Rightarrow> StreamEvent list" where
  "run [] s = []"
| "run (t # ts) s = fst (step t s) @ run ts (snd (step t s))"

definition simEvents :: "jsNumber \<Rightarrow> tick list \<Rightarrow> StreamEvent list" where
  "simEvents initialMs ticks =
     fst (createMockStream initialMs) @ run ticks (snd (createMockStream initialMs))"

fun isResult :: "StreamEvent \<Rightarrow> bool" where
  "isResult (Result outcome reason) = True"
| "isResult ev = False"

fun moveCodes :: "StreamEvent list \<Rightarrow> string list" where
  "moveCodes [] = []"
| "moveCodes (Move ply uci san position movesText # evs) = uci # moveCodes evs"
| "moveCodes (ev # evs) = moveCodes evs"

fun clockValues :: "StreamEvent list \<Rightarrow> (jsNumber \<times> jsNumber) list" where
  "clockValues [] = []"
| "clockValues (Clock w b # evs) = (w, b) # clockValues evs"
| "clockValues (ev # evs) = clockValues evs"

text \<open>A script can be played from a board when no move of it throws.\<close>

fun playable :: "Board \<Rightarrow> string list \<Rightarrow> bool" where
  "playable b [] = True"
| "playable b (uci # rest) =
     (case applyUciMove b uci of (b', None) \<Rightarrow> playable b' rest | (b', Some e) \<Rightarrow> False)"

section \<open>Position model: move-list text\<close>

text \<open>The text after the first occurrence of a character, if it occurs.\<close>

fun dropThrough :: "char \<Rightarrow> string \<Rightarrow> string option" where
  "dropThrough c [] = None"
| "dropThrough c (x # xs) = (if x = c then Some xs else dropThrough c xs)"

text \<open>
  \<^verbatim>\<open>text.replace(/\{[^}]*\}/g, '')\<close> and its twin for parentheses: from left to
  right, an opening character that has a closing one after it is removed together with
  everything up to the first closing one; an opening character with no closing one after
  it stays.
\<close>

function stripDelimited :: "char \<Rightarrow> char \<Rightarrow> string \<Rightarrow> string" where
  "stripDelimited l r [] = []"
| "stripDelimited l r (x # xs) =
     (if x = l
      then (case dropThrough r xs of
              Some rest \<Rightarrow> stripDelimited l r rest
            | None \<Rightarrow> x # stripDelimited l r xs)
      else x # stripDelimited l r xs)"
  by pat_completeness auto
termination
proof (relation "measure (\<lambda>(l, r, s). length s)")
  show "wf (measure (\<lambda>(l, r, s). length s))" by simp
next
  fix l r :: char and x :: char and xs rest :: string
  assume "dropThrough r xs = Some rest"
  then have "length rest < Suc (length xs)"
    by (induction xs) (auto split: if_splits)
  then show "((l, r, rest), (l, r, x # xs)) \<in> measure (\<lambda>(l, r, s). length s)" by simp
qed auto


definition isDigit :: "char \<Rightarrow> bool" where
  "isDigit c = (48 \<le> (of_char c :: nat) \<and> (of_char c :: nat) \<le> 57)"











subsection \<open>The move list as the specification words it\<close>





section \<open>Stream client\<close>

text \<open>
  A wire message: the event name and the body. \<^verbatim>\<open>JSON.parse\<close> belongs to the
  platform, so the listeners take it as a parameter: \<open>None\<close> is the
  \<^verbatim>\<open>SyntaxError\<close> it throws on a body that is not JSON. A handler is a state
  transformer of the client's owner; each of them is optional.
\<close>

record WireMessage =
  eventName :: string
  eventData :: string

record ('j, 's) StreamHandlers =
  onOpen :: "('s \<Rightarrow> 's) option"
  onMatchStarted :: "('j \<Rightarrow> 's \<Rightarrow> 's) option"
  onClock :: "('j \<Rightarrow> 's \<Rightarrow> 's) option"
  onMove :: "('j \<Rightarrow> 's \<Rightarrow> 's) option"
  onResult :: "('j \<Rightarrow> 's \<Rightarrow> 's) option"
  onError :: "('s \<Rightarrow> 's) option"

text \<open>
  \<^verbatim>\<open>handlers.onX?.(parseEvent(event))\<close>: without a handler the argument is not
  evaluated; with one, the body is parsed first, and a parse failure leaves the listener
  as an exception before the handler is called. There is no \<^verbatim>\<open>try\<close> in the client.
\<close>

definition callParsed ::
  "(string \<Rightarrow> 'j option) \<Rightarrow> ('j \<Rightarrow> 's \<Rightarrow> 's) option \<Rightarrow> string \<Rightarrow> 's \<Rightarrow> 's \<times> jsError option" where
  "callParsed parse handler body s =
     (case handler of
        None \<Rightarrow> (s, None)
      | Some f \<Rightarrow> (case parse body of None \<Rightarrow> (s, Some SyntaxError) | Some v \<Rightarrow> (f v s, None)))"

text \<open>
  The four listeners \<^verbatim>\<open>createMatchStream\<close> registers, selected by the event name;
  a message of any other name has no listener.
\<close>

definition listener ::
  "(string \<Rightarrow> 'j option) \<Rightarrow> ('j, 's) StreamHandlers \<Rightarrow> WireMessage \<Rightarrow> 's \<Rightarrow> 's \<times> jsError option" where
  "listener parse handlers m s =
     (if eventName m = ''match_started'' then callParsed parse (onMatchStarted handlers) (eventData m) s
      else if eventName m = ''clock'' then callParsed parse (onClock handlers) (eventData m) s
      else if eventName m = ''move'' then callParsed parse (onMove handlers) (eventData m) s
      else if eventName m = ''result'' then callParsed parse (onResult handlers) (eventData m) s
      else (s, None))"

text \<open>
  For the examples: a decoder that reads a body of decimal digits as that text and
  rejects everything else, and handlers that log what they are called with.
\<close>

definition digitsBody :: "string \<Rightarrow> string option" where
  "digitsBody body = (if body \<noteq> [] \<and> list_all isDigit body then Some body else None)"

definition loggingHandlers :: "(string, string list) StreamHandlers" where
  "loggingHandlers =
     \<lparr>onOpen = Some (\<lambda>log. log @ [''open'']),
      onMatchStarted = Some (\<lambda>v log. log @ [''match_started '' @ v]),
      onClock = Some (\<lambda>v log. log @ [''clock '' @ v]),
      onMove = Some (\<lambda>v log. log @ [''move '' @ v]),
      onResult = Some (\<lambda>v log. log @ [''result '' @ v]),
      onError = Some (\<lambda>log. log @ [''error''])\<rparr>"

section \<open>Session state machine\<close>

datatype MatchStatus = Idle | Loading | Connecting | Running | Finished | Failed | Reconnecting

text \<open>
  The browser objects the session holds on to: the event sources it has created (a
  handle is the position in the list) and the timeouts still pending, each with its
  delay and the match id its callback \<^verbatim>\<open>() => openStream(id)\<close> carries.
\<close>

record EventSource =
  sourceMatchId :: string
  sourceOpen :: bool

record Timeout =
  timeoutId :: nat
  delayMs :: nat
  retryMatchId :: string

text \<open>
  The state of \<^verbatim>\<open>App\<close>: the values of the hooks the stream handlers write, the
  three refs, and the browser objects. \<open>Failed\<close> is the status \<^verbatim>\<open>'error'\<close>.
\<close>

record Session =
  matchId :: "string option"
  fenText :: string
  pgnText :: string
  clocks :: "(jsNumber \<times> jsNumber) option"
  matchResult :: "(string \<times> string) option"
  status :: MatchStatus
  errorText :: "string option"
  lastMoveUci :: "string option"
  streamRef :: "nat option"
  reconnectTimerRef :: "nat option"
  mockStreamRef :: "nat option"
  sources :: "EventSource list"
  timeouts :: "Timeout list"
  timeoutCount :: nat
  mockCloses :: "nat list"

definition initialSession :: Session where
  "initialSession =
     \<lparr>matchId = None, fenText = startFen, pgnText = [], clocks = None, matchResult = None,
      status = Idle, errorText = None, lastMoveUci = None, streamRef = None,
      reconnectTimerRef = None, mockStreamRef = None, sources = [], timeouts = [],
      timeoutCount = 0, mockCloses = []\<rparr>"

text \<open>\<^verbatim>\<open>window.clearTimeout(id)\<close> and \<^verbatim>\<open>window.setTimeout(() => openStream(id), ms)\<close>;
  the ids handed out are positive.\<close>

definition clearTimeout :: "nat \<Rightarrow> Session \<Rightarrow> Session" where
  "clearTimeout t s = s\<lparr>timeouts := filter (\<lambda>tm. timeoutId tm \<noteq> t) (timeouts s)\<rparr>"

definition setTimeout :: "string \<Rightarrow> nat \<Rightarrow> Session \<Rightarrow> nat \<times> Session" where
  "setTimeout mid ms s =
     (let t = timeoutCount s + 1
      in (t, s\<lparr>timeouts := timeouts s @ [\<lparr>timeoutId = t, delayMs = ms, retryMatchId = mid\<rparr>],
               timeoutCount := t\<rparr>))"

text \<open>\<^verbatim>\<open>source.close()\<close> on the handle of a stream.\<close>

definition closeSource :: "nat \<Rightarrow> Session \<Rightarrow> Session" where
  "closeSource h s =
     (if h < length (sources s)
      then s\<lparr>sources := (sources s)[h := (sources s ! h)\<lparr>sourceOpen := False\<rparr>]\<rparr>
      else s)"

text \<open>\<^verbatim>\<open>closeStream\<close>: a pending reconnect timer is cleared, both handles are closed.\<close>

definition closeStream :: "Session \<Rightarrow> Session" where
  "closeStream s =
     (let s1 = (case reconnectTimerRef s of
                  None \<Rightarrow> s
                | Some t \<Rightarrow> if t = 0 then s else (clearTimeout t s)\<lparr>reconnectTimerRef := None\<rparr>);
          s2 = (case streamRef s1 of None \<Rightarrow> s1 | Some h \<Rightarrow> closeSource h s1)\<lparr>streamRef := None\<rparr>;
          s3 = (case mockStreamRef s2 of
                  None \<Rightarrow> s2
                | Some m \<Rightarrow> s2\<lparr>mockCloses := mockCloses s2 @ [m]\<rparr>)\<lparr>mockStreamRef := None\<rparr>
      in s3)"

text \<open>\<^verbatim>\<open>openStream(id)\<close>: close what is open, then create the event source for \<open>id\<close>.\<close>

definition openStream :: "string \<Rightarrow> Session \<Rightarrow> Session" where
  "openStream mid s =
     (let s1 = closeStream s
      in s1\<lparr>sources := sources s1 @ [\<lparr>sourceMatchId = mid, sourceOpen = True\<rparr>],
            streamRef := Some (length (sources s1))\<rparr>)"

text \<open>The handlers \<^verbatim>\<open>openStream\<close> passes to the stream client.\<close>

definition streamOnOpen :: "Session \<Rightarrow> Session" where
  "streamOnOpen s = s\<lparr>status := (if status s = Reconnecting then Running else status s)\<rparr>"

definition streamOnMatchStarted :: "string \<Rightarrow> string \<Rightarrow> Session \<Rightarrow> Session" where
  "streamOnMatchStarted mid startPosition s =
     s\<lparr>status := Running,
       fenText := (if startPosition = [] then startFen else startPosition),
       pgnText := [], matchResult := None\<rparr>"

definition streamOnClock :: "jsNumber \<Rightarrow> jsNumber \<Rightarrow> Session \<Rightarrow> Session" where
  "streamOnClock w b s = s\<lparr>clocks := Some (w, b)\<rparr>"

definition streamOnMove :: "nat \<Rightarrow> string \<Rightarrow> string \<Rightarrow> string \<Rightarrow> string \<Rightarrow> Session \<Rightarrow> Session" where
  "streamOnMove ply uci san position movesText s =
     s\<lparr>fenText := position, pgnText := movesText, lastMoveUci := Some uci\<rparr>"

definition streamOnResult :: "string \<Rightarrow> string \<Rightarrow> Session \<Rightarrow> Session" where
  "streamOnResult outcome reason s =
     closeStream (s\<lparr>matchResult := Some (outcome, reason), status := Finished\<rparr>)"

definition streamOnError :: "string \<Rightarrow> Session \<Rightarrow> Session" where
  "streamOnError mid s =
     (let s1 = closeStream (s\<lparr>status := Reconnecting\<rparr>);
          (t, s2) = setTimeout mid 1500 s1
      in s2\<lparr>reconnectTimerRef := Some t\<rparr>)"

text \<open>The \<^verbatim>\<open>onOpen\<close> handler \<^verbatim>\<open>handleStart\<close> passes to the simulator.\<close>

definition mockOnOpen :: "Session \<Rightarrow> Session" where
  "mockOnOpen s = s\<lparr>status := Running\<rparr>"

text \<open>\<^verbatim>\<open>resetMatch\<close>, the stop button.\<close>

definition resetMatch :: "Session \<Rightarrow> Session" where
  "resetMatch s =
     (closeStream s)\<lparr>matchId := None, fenText := startFen, pgnText := [], clocks := None,
       matchResult := None, lastMoveUci := None, status := Idle, errorText := None\<rparr>"

text \<open>
  A timeout comes due: if it is still pending its callback runs, and it is pending no
  more. A timeout that was cleared never runs.
\<close>

definition fireTimeout :: "nat \<Rightarrow> Session \<Rightarrow> Session" where
  "fireTimeout t s =
     (case find (\<lambda>tm. timeoutId tm = t) (timeouts s) of
        None \<Rightarrow> s
      | Some tm \<Rightarrow> openStream (retryMatchId tm) (clearTimeout t s))"

text \<open>
  Every pending timeout is the one the reconnect ref names, and its id is positive:
  the session never has a retry pending that it could not cancel.
\<close>

definition timersTracked :: "Session \<Rightarrow> bool" where
  "timersTracked s =
     (\<forall>tm \<in> set (timeouts s). reconnectTimerRef s = Some (timeoutId tm) \<and> 0 < timeoutId tm)"

text \<open>A session whose stream for match \<open>m1\<close> is open, in a given status.\<close>

definition liveSession :: "MatchStatus \<Rightarrow> Session" where
  "liveSession st = (openStream ''m1'' initialSession)\<lparr>matchId := Some ''m1'', status := st\<rparr>"

section \<open>Notions the statements use\<close>

text \<open>Whether a handler is registered for the event of a given name.\<close>

definition registered :: "('j, 's) StreamHandlers \<Rightarrow> string \<Rightarrow> bool" where
  "registered handlers name =
     ((name = ''match_started'' \<and> onMatchStarted handlers \<noteq> None)
      \<or> (name = ''clock'' \<and> onClock handlers \<noteq> None)
      \<or> (name = ''move'' \<and> onMove handlers \<noteq> None)
      \<or> (name = ''result'' \<and> onResult handlers \<noteq> None))"


text \<open>
  The state a run of the simulator ends in; a simulator is stopped when it is closed and
  both intervals are cleared; the number of times the move interval fires in a run; and
  the invariant of a running simulator: it is open, both intervals are installed, and the
  rest of the script can be played from its board.
\<close>

fun runState :: "tick list \<Rightarrow> sim \<Rightarrow> sim" where
  "runState [] s = s"
| "runState (t # ts) s = runState ts (snd (step t s))"

definition stopped :: "sim \<Rightarrow> bool" where
  "stopped s = (closed s \<and> \<not> clockTimer s \<and> \<not> moveTimer s)"

definition moveTicks :: "tick list \<Rightarrow> nat" where
  "moveTicks ts = length (filter (\<lambda>t. t = MoveTick) ts)"

definition simInv :: "sim \<Rightarrow> bool" where
  "simInv s = (\<not> closed s \<and> clockTimer s \<and> moveTimer s
     \<and> playable (simBoard s) (map fst (drop (moveIndex s) mockMoves)))"


text \<open>
  The number of clock ticks of a run that find the simulator running: those before the
  handle is closed and before the move tick that finds the script exhausted, there
  being \<open>movesLeft\<close> scripted moves still to play.
\<close>

fun clockTicksWhileRunning :: "nat \<Rightarrow> tick list \<Rightarrow> nat" where
  "clockTicksWhileRunning movesLeft [] = 0"
| "clockTicksWhileRunning movesLeft (ClockTick # ts) = Suc (clockTicksWhileRunning movesLeft ts)"
| "clockTicksWhileRunning movesLeft (MoveTick # ts) =
     (if movesLeft = 0 then 0 else clockTicksWhileRunning (movesLeft - 1) ts)"
| "clockTicksWhileRunning movesLeft (Close # ts) = 0"

text \<open>
  \<open>put b r c v\<close> is the board \<open>b\<close> with \<open>v\<close> written to row \<open>r\<close>, column \<open>c\<close>, and
  \<open>boardAfter\<close> the board after the writes of a move, in the order the code makes them:
  the from square, the rook's two squares when castling, the to square.
\<close>

definition put :: "Board \<Rightarrow> nat \<Rightarrow> nat \<Rightarrow> Square \<Rightarrow> Board" where
  "put b r c v = b[r := (b ! r)[c := v]]"


definition boardAfter ::
  "Board \<Rightarrow> nat \<times> nat \<Rightarrow> nat \<times> nat \<Rightarrow> string \<Rightarrow> (nat \<times> nat \<times> nat) option \<Rightarrow> Board" where
  "boardAfter board fromRC toRC moved hop =
     (let b1 = put board (fst fromRC) (snd fromRC) None;
          b2 = (case hop of
                  None \<Rightarrow> b1
                | Some (hr, corner, dest) \<Rightarrow> put (put b1 hr dest (b1 ! hr ! corner)) hr corner None)
      in put b2 (fst toRC) (snd toRC) (Some moved))"


section \<open>Properties of the parser\<close>

lemma splitOn_nonempty: "splitOn sep s \<noteq> []"
  by (induction s) (auto split: list.splits)

lemma splitOn_no_sep: "sep \<notin> set s \<Longrightarrow> splitOn sep s = [s]"
  by (induction s) auto

lemma splitOn_append_sep:
  "sep \<notin> set a \<Longrightarrow> splitOn sep (a @ sep # b) = a # splitOn sep b"
  by (induction a) auto

lemma concat_splitOn: "concat (splitOn sep s) = filter (\<lambda>c. c \<noteq> sep) s"
proof (induction s)
  case Nil
  then show ?case by simp
next
  case (Cons c cs)
  then show ?case
    using splitOn_nonempty [of sep cs] by (cases "splitOn sep cs") auto
qed

lemma set_splitOn: "r \<in> set (splitOn sep s) \<Longrightarrow> set r \<subseteq> set s"
proof -
  assume "r \<in> set (splitOn sep s)"
  then have "set r \<subseteq> set (concat (splitOn sep s))" by auto
  then show ?thesis by (auto simp: concat_splitOn)
qed

lemma pushNulls_replicate: "pushNulls n row = row @ replicate n None"
  by (induction n arbitrary: row) (auto simp: replicate_app_Cons_same)

lemma parseRank_expand: "parseRank cs row = row @ concat (map expand cs)"
  by (induction cs arbitrary: row) (auto simp: expand_def pushNulls_replicate)

lemma length_parseRank: "length (parseRank cs []) = rankWidth cs"
  by (induction cs) (auto simp: parseRank_expand rankWidth_def expand_def)

lemma parseFen_no_space:
  "CHR '' '' \<notin> set text \<Longrightarrow>
   parseFen text = map (\<lambda>rank. concat (map expand rank)) (splitOn (CHR ''/'') text)"
  by (simp add: parseFen_def splitOn_no_sep parseRank_expand)

lemma pieces_expand:
  "concat (map the (filter (\<lambda>sq. sq \<noteq> None) (concat (map expand s)))) = filter (\<lambda>c. \<not> isGap c) s"
  by (induction s) (auto simp: expand_def)

lemma concat_expand_ranks:
  "concat (map (\<lambda>rank. concat (map expand rank)) ranks) = concat (map expand (concat ranks))"
  by (induction ranks) auto

lemma pieceLetter_not_digit: "c \<in> pieceLetters \<Longrightarrow> \<not> isDigit c \<and> \<not> isGap c \<and> c \<noteq> CHR '' ''"
  by (auto simp: pieceLetters_def isDigit_def isGap_def)

lemma isGap_isDigit: "isGap c \<Longrightarrow> isDigit c \<and> c \<noteq> CHR '' ''"
  by (auto simp: isDigit_def isGap_def)

lemma validPlacement_chars:
  assumes "validPlacement text" "c \<in> set text" "c \<noteq> CHR ''/''"
  shows "isGap c \<or> c \<in> pieceLetters"
proof -
  from assms(2,3) have "c \<in> set (concat (splitOn (CHR ''/'') text))"
    by (simp add: concat_splitOn)
  then obtain rank where "rank \<in> set (splitOn (CHR ''/'') text)" "c \<in> set rank"
    by auto
  with assms(1) show ?thesis
    by (auto simp: validPlacement_def validRank_def)
qed

text \<open>
  C2, as the code has it. \<^verbatim>\<open>parseFen\<close> has no error branch: for every text it returns
  the grid with one row per \<^verbatim>\<open>/\<close>-separated rank of the first space-separated field.
  A digit 1-8 becomes that many empty cells and every other character, recognised piece
  letter or not, becomes a cell holding it, so a rank that does not sum to 8 gives a
  row of that other width.
\<close>

theorem parseFen_never_fails:
  "parseFen text =
     map (\<lambda>rank. concat (map expand rank)) (splitOn (CHR ''/'') (hd (splitOn (CHR '' '') text)))
   \<and> map length (parseFen text) =
     map rankWidth (splitOn (CHR ''/'') (hd (splitOn (CHR '' '') text)))"
  by (simp add: parseFen_def parseRank_expand length_parseRank [unfolded parseRank_expand, simplified])

text \<open>
  C2 as worded fails: \<^verbatim>\<open>7/x9\<close> is no valid placement (two ranks, of widths 7 and 2,
  with the unknown letter \<^verbatim>\<open>x\<close> and the digit 9), and \<^verbatim>\<open>parseFen\<close> returns a grid
  for it all the same.
\<close>

theorem parseFen_invalid_counterexample:
  "\<not> validPlacement ''7/x9'' \<and>
   parseFen ''7/x9'' = [[None, None, None, None, None, None, None], [Some ''x'', Some ''9'']]"
  by (simp add: validPlacement_def parseFen_def isGap_def gapCount_def numeral_eq_Suc)

text \<open>
  C8. For a valid placement text (8 ranks, each made of piece letters and digits 1-8
  and summing to 8) \<^verbatim>\<open>parseFen\<close> returns 8 rows of 8 cells each; every digit stands for
  that many empty cells and every other character for one cell holding it; and the piece
  codes of the grid, read row by row, are the characters of the text that are neither
  digits nor rank separators, in order.
\<close>

theorem parseFen_valid_placement:
  assumes "validPlacement text"
  shows "length (parseFen text) = 8
    \<and> list_all (\<lambda>row. length row = 8) (parseFen text)
    \<and> parseFen text = map (\<lambda>rank. concat (map expand rank)) (splitOn (CHR ''/'') text)
    \<and> pieceCodes (parseFen text) = filter (\<lambda>c. \<not> isDigit c \<and> c \<noteq> CHR ''/'') text"
proof -
  let ?ranks = "splitOn (CHR ''/'') text"
  have chars: "isGap c \<or> c \<in> pieceLetters" if "c \<in> set text" "c \<noteq> CHR ''/''" for c
    using validPlacement_chars [OF assms that] .
  have nosp: "CHR '' '' \<notin> set text"
  proof
    assume "CHR '' '' \<in> set text"
    then have "isGap (CHR '' '') \<or> CHR '' '' \<in> pieceLetters"
      by (intro chars) auto
    then show False
      by (simp add: isGap_def pieceLetters_def)
  qed
  have grid: "parseFen text = map (\<lambda>rank. concat (map expand rank)) ?ranks"
    using nosp by (rule parseFen_no_space)
  have len: "length (parseFen text) = 8"
    using assms by (simp add: grid validPlacement_def)
  have "length (concat (map expand rank)) = 8" if "rank \<in> set ?ranks" for rank
    using that assms length_parseRank [of rank]
    by (simp add: parseRank_expand validPlacement_def validRank_def)
  then have rows: "list_all (\<lambda>row. length row = 8) (parseFen text)"
    by (simp add: grid list_all_iff)
  have "pieceCodes (parseFen text) = filter (\<lambda>c. \<not> isGap c) (filter (\<lambda>c. c \<noteq> CHR ''/'') text)"
    unfolding grid pieceCodes_def concat_expand_ranks pieces_expand concat_splitOn ..
  also have "\<dots> = filter (\<lambda>c. \<not> isGap c \<and> c \<noteq> CHR ''/'') text"
    by (simp add: conj_commute)
  also have "\<dots> = filter (\<lambda>c. \<not> isDigit c \<and> c \<noteq> CHR ''/'') text"
    using chars pieceLetter_not_digit isGap_isDigit by (intro filter_cong) auto
  finally show ?thesis using len rows grid by simp
qed

theorem parseFen_valid_placement_witness:
  "validPlacement ''rnbqkbnr/pp1ppppp/8/2p5/4P3/5N2/PPPP1PPP/RNBQKB1R''
   \<and> length (parseFen ''rnbqkbnr/pp1ppppp/8/2p5/4P3/5N2/PPPP1PPP/RNBQKB1R'') = 8
   \<and> pieceCodes (parseFen ''rnbqkbnr/pp1ppppp/8/2p5/4P3/5N2/PPPP1PPP/RNBQKB1R'')
       = ''rnbqkbnrppppppppPNPPPPPPPRNBQKBR''"
proof -
  let ?t = "''rnbqkbnr/pp1ppppp/8/2p5/4P3/5N2/PPPP1PPP/RNBQKB1R''"
  have v: "validPlacement ?t"
    by (simp add: validPlacement_def validRank_def rankWidth_def isGap_def gapCount_def
        pieceLetters_def)
  from parseFen_valid_placement [OF v]
  have l: "length (parseFen ?t) = 8"
    and p: "pieceCodes (parseFen ?t) = filter (\<lambda>c. \<not> isDigit c \<and> c \<noteq> CHR ''/'') ?t"
    by blast+
  have f: "filter (\<lambda>c. \<not> isDigit c \<and> c \<noteq> CHR ''/'') ?t = ''rnbqkbnrppppppppPNPPPPPPPRNBQKBR''"
    by (simp add: isDigit_def)
  from v l p [unfolded f] show ?thesis by blast
qed

section \<open>Round trip between the serializer and the parser\<close>

lemma small_cases: "0 < e \<Longrightarrow> e \<le> (8::nat) \<Longrightarrow> e \<in> {1, 2, 3, 4, 5, 6, 7, 8}"
  by auto

lemma showNat_small:
  assumes "0 < e" "e \<le> 8"
  shows "showNat e = [digitChar e]" "isGap (digitChar e)" "gapCount (digitChar e) = e"
    "digitChar e \<noteq> CHR ''/''" "digitChar e \<noteq> CHR '' ''"
    "CHR ''/'' \<noteq> digitChar e" "CHR '' '' \<noteq> digitChar e"
  using small_cases [OF assms]
  by (auto simp: showNat.simps digitChar_def isGap_def gapCount_def)

lemma expand_showNat: "0 < e \<Longrightarrow> e \<le> 8 \<Longrightarrow> concat (map expand (showNat e)) = replicate e None"
  by (simp add: showNat_small expand_def)

lemma expand_piece: "\<not> isGap c \<Longrightarrow> expand c = [Some [c]]"
  by (simp add: expand_def)

lemma plainCell_cases:
  "plainCell sq \<Longrightarrow>
   sq = None \<or> (\<exists>c. sq = Some [c] \<and> \<not> isGap c \<and> c \<noteq> CHR ''/'' \<and> c \<noteq> CHR '' '')"
  by (cases sq) (auto simp: plainCell_def length_Suc_conv)

lemma roundtrip_fold:
  "e + length rank \<le> 8 \<Longrightarrow> \<forall>sq \<in> set rank. plainCell sq \<Longrightarrow>
   concat (map expand (flushLine (foldl rankStep (e, l) rank)))
     = concat (map expand l) @ replicate e None @ rank"
proof (induction rank arbitrary: e l)
  case Nil
  then show ?case by (simp add: expand_showNat)
next
  case (Cons sq rank)
  from Cons.prems have "plainCell sq" by simp
  from plainCell_cases [OF this] show ?case
  proof (elim disjE exE conjE)
    assume "sq = None"
    with Cons.prems Cons.IH [of "e + 1" l] show ?thesis
      by (simp add: falsy_def replicate_app_Cons_same)
  next
    fix c
    assume "sq = Some [c]" "\<not> isGap c"
    with Cons.prems Cons.IH [of 0 "(if e > 0 then l @ showNat e else l) @ [c]"] show ?thesis
      by (simp add: falsy_def expand_showNat expand_piece)
  qed
qed

lemma rankToLine_roundtrip:
  "length rank \<le> 8 \<Longrightarrow> \<forall>sq \<in> set rank. plainCell sq \<Longrightarrow> parseRank (rankToLine rank) [] = rank"
  using roundtrip_fold [of 0 rank "[]"] by (simp add: rankToLine_def parseRank_expand)

lemma chars_fold:
  "e + length rank \<le> 8 \<Longrightarrow> \<forall>sq \<in> set rank. plainCell sq \<Longrightarrow> x \<notin> set l \<Longrightarrow>
   x = CHR ''/'' \<or> x = CHR '' '' \<Longrightarrow>
   x \<notin> set (flushLine (foldl rankStep (e, l) rank))"
proof (induction rank arbitrary: e l)
  case Nil
  then show ?case by (auto simp: showNat_small)
next
  case (Cons sq rank)
  from Cons.prems have "plainCell sq" by simp
  from plainCell_cases [OF this] show ?case
  proof (elim disjE exE conjE)
    assume "sq = None"
    with Cons.prems Cons.IH [of "e + 1" l] show ?thesis
      by (simp add: falsy_def)
  next
    fix c
    assume c: "sq = Some [c]" "c \<noteq> CHR ''/''" "c \<noteq> CHR '' ''"
    let ?l = "(if e > 0 then l @ showNat e else l) @ [c]"
    have "x \<notin> set ?l"
      using c Cons.prems by (auto simp: showNat_small)
    moreover have "0 + length rank \<le> 8" "\<forall>sq \<in> set rank. plainCell sq"
      using Cons.prems by auto
    ultimately have "x \<notin> set (flushLine (foldl rankStep (0, ?l) rank))"
      using Cons.prems(4) by (intro Cons.IH)
    then show ?thesis using c by (simp add: falsy_def)
  qed
qed

lemma rankToLine_chars:
  "length rank \<le> 8 \<Longrightarrow> \<forall>sq \<in> set rank. plainCell sq \<Longrightarrow>
   CHR ''/'' \<notin> set (rankToLine rank) \<and> CHR '' '' \<notin> set (rankToLine rank)"
  using chars_fold [of 0 rank "CHR ''/''" "[]"] chars_fold [of 0 rank "CHR '' ''" "[]"]
  by (simp add: rankToLine_def)

lemma splitOn_joinWith:
  "ls \<noteq> [] \<Longrightarrow> \<forall>l \<in> set ls. CHR ''/'' \<notin> set l \<Longrightarrow>
   splitOn (CHR ''/'') (joinWith ''/'' ls) = ls"
proof (induction "''/''" ls rule: joinWith.induct)
  case 1
  then show ?case by simp
next
  case (2 x)
  then show ?case by (simp add: splitOn_no_sep)
next
  case (3 x y ys)
  then show ?case using splitOn_append_sep [of "CHR ''/''" x "joinWith ''/'' (y # ys)"] by simp
qed

lemma set_joinWith: "set (joinWith sep ls) \<subseteq> set sep \<union> \<Union> (set ` set ls)"
  by (induction sep ls rule: joinWith.induct) auto

text \<open>
  C10, amended. For every board of 8 rows of 8 cells whose occupied cells hold a single
  character that is not a digit 1-8, not the rank separator and not a space, parsing the
  placement text that \<^verbatim>\<open>boardToPlacement\<close> produces gives back the board.
\<close>

theorem placement_roundtrip:
  assumes "grid8 board" "list_all (list_all plainCell) board"
  shows "parseFen (boardToPlacement board) = board"
proof -
  let ?ls = "map rankToLine board"
  have rows: "\<forall>row \<in> set board. length row \<le> 8 \<and> (\<forall>sq \<in> set row. plainCell sq)"
    using assms by (auto simp: grid8_def list_all_iff)
  have ne: "?ls \<noteq> []" using assms by (auto simp: grid8_def)
  have nosl: "\<forall>l \<in> set ?ls. CHR ''/'' \<notin> set l" using rows rankToLine_chars by auto
  have nosp: "CHR '' '' \<notin> set (boardToPlacement board)"
    using set_joinWith [of "''/''" ?ls] rows rankToLine_chars
    by (auto simp: boardToPlacement_def)
  have "parseFen (boardToPlacement board) = map (\<lambda>rank. parseRank rank []) ?ls"
    using nosp splitOn_joinWith [OF ne nosl]
    by (simp add: parseFen_def splitOn_no_sep boardToPlacement_def)
  also have "\<dots> = board"
    using rows by (simp add: map_idI rankToLine_roundtrip)
  finally show ?thesis .
qed

theorem placement_roundtrip_witness:
  "grid8 createStartBoard \<and> list_all (list_all plainCell) createStartBoard
   \<and> parseFen (boardToPlacement createStartBoard) = createStartBoard"
proof -
  have g: "grid8 createStartBoard"
    by (simp add: grid8_def createStartBoard_def)
  have p: "list_all (list_all plainCell) createStartBoard"
    by (simp add: createStartBoard_def plainCell_def isGap_def)
  show ?thesis using g p placement_roundtrip [OF g p] by simp
qed

text \<open>
  C10 as worded fails on a board with a space in a8: the cell is a single character,
  no digit and no separator, yet the text is \<^verbatim>\<open>" 7/8/8/8/8/8/8/8"\<close>, whose first
  space-separated field is empty, and the parser returns one empty row.
\<close>

theorem placement_roundtrip_counterexample:
  "grid8 spaceBoard \<and> list_all (list_all claimedCell) spaceBoard
   \<and> boardToPlacement spaceBoard = '' 7/8/8/8/8/8/8/8''
   \<and> parseFen (boardToPlacement spaceBoard) = [[]]
   \<and> parseFen (boardToPlacement spaceBoard) \<noteq> spaceBoard"
proof -
  have r1: "rankToLine [Some '' '', None, None, None, None, None, None, None] = '' 7''"
    by (simp add: rankToLine_def falsy_def showNat.simps digitChar_def)
  have r2: "rankToLine [None, None, None, None, None, None, None, None] = ''8''"
    by (simp add: rankToLine_def falsy_def showNat.simps digitChar_def)
  have t: "boardToPlacement spaceBoard = '' 7/8/8/8/8/8/8/8''"
    by (simp add: spaceBoard_def boardToPlacement_def r1 r2)
  have q: "parseFen '' 7/8/8/8/8/8/8/8'' = [[]]"
    by (simp add: parseFen_def)
  have g: "grid8 spaceBoard \<and> list_all (list_all claimedCell) spaceBoard"
    by (simp add: spaceBoard_def grid8_def claimedCell_def isGap_def)
  show ?thesis using g by (simp add: t q) (simp add: spaceBoard_def)
qed

section \<open>Stream client, session state machine\<close>

text \<open>
  C1, as the code has it. A message whose body \<^verbatim>\<open>JSON.parse\<close> rejects calls no
  handler and changes no state; the listener does not swallow the failure: when a
  handler is registered for the event name, the \<^verbatim>\<open>SyntaxError\<close> leaves the listener
  uncaught (with no handler registered the body is not parsed at all). The client keeps
  nothing between two messages, so the next message is parsed and dispatched as if the
  malformed one had never arrived.
\<close>

theorem malformed_body_throws:
  assumes "parse (eventData m) = None"
  shows "listener parse handlers m s =
           (s, if registered handlers (eventName m) then Some SyntaxError else None)
    \<and> listener parse handlers m' (fst (listener parse handlers m s)) = listener parse handlers m' s"
proof -
  have "listener parse handlers m s =
           (s, if registered handlers (eventName m) then Some SyntaxError else None)"
    using assms by (auto simp: listener_def callParsed_def registered_def split: option.splits)
  then show ?thesis by simp
qed

theorem malformed_body_throws_witness:
  "digitsBody ''{'' = None
   \<and> listener digitsBody loggingHandlers \<lparr>eventName = ''clock'', eventData = ''{''\<rparr> [''open'']
       = ([''open''], Some SyntaxError)
   \<and> listener digitsBody loggingHandlers \<lparr>eventName = ''clock'', eventData = ''42''\<rparr>
        (fst (listener digitsBody loggingHandlers \<lparr>eventName = ''clock'', eventData = ''{''\<rparr> [''open'']))
       = ([''open'', ''clock 42''], None)"
proof -
  have n: "digitsBody (eventData \<lparr>eventName = ''clock'', eventData = ''{''\<rparr>) = None"
    by (simp add: digitsBody_def isDigit_def)
  have r: "registered loggingHandlers ''clock''"
    by (simp add: registered_def loggingHandlers_def)
  have g: "listener digitsBody loggingHandlers \<lparr>eventName = ''clock'', eventData = ''42''\<rparr> [''open'']
       = ([''open'', ''clock 42''], None)"
    by (simp add: listener_def callParsed_def loggingHandlers_def digitsBody_def isDigit_def)
  show ?thesis
    using n r g
      malformed_body_throws [where parse = digitsBody
        and m = "\<lparr>eventName = ''clock'', eventData = ''{''\<rparr>"
        and handlers = loggingHandlers and s = "[''open'']"
        and m' = "\<lparr>eventName = ''clock'', eventData = ''42''\<rparr>"]
    by simp
qed

text \<open>
  C1 as worded fails: the body \<^verbatim>\<open>{\<close> of a \<^verbatim>\<open>clock\<close> message does not parse, and
  the listener ends with the exception instead of swallowing it.
\<close>

theorem malformed_body_counterexample:
  "digitsBody ''{'' = None
   \<and> snd (listener digitsBody loggingHandlers \<lparr>eventName = ''clock'', eventData = ''{''\<rparr> [])
       = Some SyntaxError"
  by (simp add: listener_def callParsed_def loggingHandlers_def digitsBody_def isDigit_def)





lemma closeStream_fields:
  "status (closeStream s) = status s"
  "streamRef (closeStream s) = None"
  "reconnectTimerRef (closeStream s) = (if reconnectTimerRef s = Some 0 then Some 0 else None)"
  "timeoutCount (closeStream s) = timeoutCount s"
  "length (sources (closeStream s)) = length (sources s)"
  by (auto simp: closeStream_def clearTimeout_def closeSource_def Let_def split: option.splits)

lemma closeStream_timeouts_eq:
  "timeouts (closeStream s) =
     (case reconnectTimerRef s of
        None \<Rightarrow> timeouts s
      | Some t \<Rightarrow> if t = 0 then timeouts s else filter (\<lambda>tm. timeoutId tm \<noteq> t) (timeouts s))"
  by (auto simp: closeStream_def clearTimeout_def closeSource_def Let_def split: option.splits)

lemma closeStream_timeouts:
  assumes "timersTracked s"
  shows "timeouts (closeStream s) = []"
proof (cases "timeouts s")
  case Nil
  then show ?thesis by (simp add: closeStream_timeouts_eq split: option.splits)
next
  case (Cons tm rest)
  with assms have ref: "reconnectTimerRef s = Some (timeoutId tm)" "0 < timeoutId tm"
    by (simp_all add: timersTracked_def)
  have "\<forall>x \<in> set (timeouts s). timeoutId x = timeoutId tm"
    using assms ref by (auto simp: timersTracked_def)
  then have "filter (\<lambda>x. timeoutId x \<noteq> timeoutId tm) (timeouts s) = []"
    by (simp add: filter_empty_conv)
  with ref show ?thesis by (simp add: closeStream_timeouts_eq)
qed

lemma closeStream_sources:
  "streamRef s = Some h \<Longrightarrow> h < length (sources s) \<Longrightarrow>
   sources (closeStream s) = (sources s)[h := (sources s ! h)\<lparr>sourceOpen := False\<rparr>]"
  by (auto simp: closeStream_def clearTimeout_def closeSource_def Let_def split: option.splits)

lemma closeStream_idle:
  "streamRef s = None \<Longrightarrow> sources (closeStream s) = sources s"
  by (auto simp: closeStream_def clearTimeout_def closeSource_def Let_def split: option.splits)

text \<open>
  The invariant the retry relies on holds initially and is kept by every operation of
  the session.
\<close>

lemma timersTracked_initial: "timersTracked initialSession"
  by (simp add: timersTracked_def initialSession_def)

lemma timersTracked_closeStream:
  assumes "timersTracked s"
  shows "timersTracked (closeStream s)"
  using closeStream_timeouts [OF assms] by (simp add: timersTracked_def)

lemma timersTracked_openStream:
  assumes "timersTracked s"
  shows "timersTracked (openStream mid s)"
  using closeStream_timeouts [OF assms] by (simp add: timersTracked_def openStream_def Let_def)

lemma timersTracked_resetMatch:
  assumes "timersTracked s"
  shows "timersTracked (resetMatch s)"
  using closeStream_timeouts [OF assms] by (simp add: timersTracked_def resetMatch_def)

lemma timersTracked_streamOnResult:
  "timersTracked s \<Longrightarrow> timersTracked (streamOnResult outcome reason s)"
proof -
  assume "timersTracked s"
  then have "timersTracked (s\<lparr>matchResult := Some (outcome, reason), status := Finished\<rparr>)"
    by (simp add: timersTracked_def)
  then show ?thesis
    unfolding streamOnResult_def by (rule timersTracked_closeStream)
qed

lemma timersTracked_streamOnError: "timersTracked s \<Longrightarrow> timersTracked (streamOnError mid s)"
proof -
  assume "timersTracked s"
  then have "timersTracked (s\<lparr>status := Reconnecting\<rparr>)"
    by (simp add: timersTracked_def)
  then have "timeouts (closeStream (s\<lparr>status := Reconnecting\<rparr>)) = []"
    by (rule closeStream_timeouts)
  then show ?thesis
    by (simp add: timersTracked_def streamOnError_def setTimeout_def Let_def)
qed

lemma timersTracked_fireTimeout: "timersTracked s \<Longrightarrow> timersTracked (fireTimeout t s)"
proof (cases "find (\<lambda>tm. timeoutId tm = t) (timeouts s)")
  case None
  assume "timersTracked s"
  with None show ?thesis by (simp add: fireTimeout_def)
next
  case (Some tm)
  assume "timersTracked s"
  then have "timersTracked (clearTimeout t s)"
    by (simp add: timersTracked_def clearTimeout_def)
  then have "timersTracked (openStream (retryMatchId tm) (clearTimeout t s))"
    by (rule timersTracked_openStream)
  with Some show ?thesis by (simp add: fireTimeout_def)
qed

lemma timersTracked_handlers:
  "timersTracked s \<Longrightarrow>
   timersTracked (streamOnOpen s) \<and> timersTracked (streamOnMatchStarted mid startPosition s)
   \<and> timersTracked (streamOnClock w b s) \<and> timersTracked (streamOnMove ply uci san position movesText s)
   \<and> timersTracked (mockOnOpen s)"
  by (simp add: timersTracked_def streamOnOpen_def streamOnMatchStarted_def streamOnClock_def
      streamOnMove_def mockOnOpen_def)

text \<open>
  C3. A session with an open stream, in whatever status, that receives \<^verbatim>\<open>onError\<close>
  becomes reconnecting, closes the stream's event source and drops its handle, and has
  exactly one timeout pending, of 1500 ms, for the same match id. When that timeout
  comes due, the stream is opened once more for that match id and nothing is pending
  any more. When the session is stopped first, the timeout is cleared: nothing is
  pending, and the timeout coming due changes nothing, so no event source is created.
\<close>

theorem onError_schedules_one_retry:
  assumes "timersTracked s" "streamRef s = Some h" "h < length (sources s)"
  shows "let s' = streamOnError mid s; t = timeoutCount s + 1 in
           status s' = Reconnecting
         \<and> streamRef s' = None
         \<and> sources s' = (sources s)[h := (sources s ! h)\<lparr>sourceOpen := False\<rparr>]
         \<and> timeouts s' = [\<lparr>timeoutId = t, delayMs = 1500, retryMatchId = mid\<rparr>]
         \<and> reconnectTimerRef s' = Some t
         \<and> sources (fireTimeout t s') = sources s' @ [\<lparr>sourceMatchId = mid, sourceOpen = True\<rparr>]
         \<and> streamRef (fireTimeout t s') = Some (length (sources s'))
         \<and> timeouts (fireTimeout t s') = []
         \<and> timeouts (resetMatch s') = []
         \<and> status (resetMatch s') = Idle
         \<and> fireTimeout t (resetMatch s') = resetMatch s'
         \<and> sources (resetMatch s') = sources s'"
proof -
  define s1 where "s1 = closeStream (s\<lparr>status := Reconnecting\<rparr>)"
  define t where "t = timeoutCount s + 1"
  define s' where "s' = streamOnError mid s"
  have tr: "timersTracked (s\<lparr>status := Reconnecting\<rparr>)"
    using assms(1) by (simp add: timersTracked_def)
  have s1: "status s1 = Reconnecting" "streamRef s1 = None" "timeouts s1 = []"
    "timeoutCount s1 = timeoutCount s"
    "sources s1 = (sources s)[h := (sources s ! h)\<lparr>sourceOpen := False\<rparr>]"
    using closeStream_timeouts [OF tr] closeStream_sources [of "s\<lparr>status := Reconnecting\<rparr>" h] assms
    by (simp_all add: s1_def closeStream_fields)
  have s': "s' = s1\<lparr>timeouts := [\<lparr>timeoutId = t, delayMs = 1500, retryMatchId = mid\<rparr>],
                    timeoutCount := t, reconnectTimerRef := Some t\<rparr>"
    by (simp add: s'_def streamOnError_def setTimeout_def Let_def s1_def [symmetric] s1 t_def)
  have f: "status s' = Reconnecting" "streamRef s' = None"
    "sources s' = (sources s)[h := (sources s ! h)\<lparr>sourceOpen := False\<rparr>]"
    "timeouts s' = [\<lparr>timeoutId = t, delayMs = 1500, retryMatchId = mid\<rparr>]"
    "reconnectTimerRef s' = Some t"
    by (simp_all add: s' s1)
  have tpos: "t \<noteq> 0" by (simp add: t_def)
  have fire: "fireTimeout t s' = openStream mid (clearTimeout t s')"
    by (simp add: fireTimeout_def f)
  have c: "timeouts (clearTimeout t s') = []" "streamRef (clearTimeout t s') = None"
    "sources (clearTimeout t s') = sources s'"
    by (simp_all add: clearTimeout_def f)
  have tc: "timersTracked (clearTimeout t s')"
    by (simp add: timersTracked_def c)
  have o: "sources (fireTimeout t s') = sources s' @ [\<lparr>sourceMatchId = mid, sourceOpen = True\<rparr>]"
    "streamRef (fireTimeout t s') = Some (length (sources s'))"
    "timeouts (fireTimeout t s') = []"
    using closeStream_timeouts [OF tc] closeStream_idle [OF c(2)] c
    by (simp_all add: fire openStream_def Let_def closeStream_fields)
  have ts': "timersTracked s'"
    using tpos by (simp add: timersTracked_def f)
  have r: "timeouts (resetMatch s') = []" "status (resetMatch s') = Idle"
    "sources (resetMatch s') = sources s'"
    using closeStream_timeouts [OF ts'] closeStream_idle [OF f(2)]
    by (simp_all add: resetMatch_def)
  have n: "fireTimeout t (resetMatch s') = resetMatch s'"
    by (simp add: fireTimeout_def r)
  show ?thesis
    using f o r n unfolding Let_def s'_def t_def by simp
qed


theorem onError_schedules_one_retry_witness:
  "timersTracked (liveSession Running)
   \<and> streamRef (liveSession Running) = Some 0
   \<and> status (streamOnError ''m1'' (liveSession Running)) = Reconnecting
   \<and> timeouts (streamOnError ''m1'' (liveSession Running))
       = [\<lparr>timeoutId = 1, delayMs = 1500, retryMatchId = ''m1''\<rparr>]
   \<and> streamRef (fireTimeout 1 (streamOnError ''m1'' (liveSession Running))) = Some 1
   \<and> fireTimeout 1 (resetMatch (streamOnError ''m1'' (liveSession Running)))
       = resetMatch (streamOnError ''m1'' (liveSession Running))"
proof -
  have l: "liveSession Running =
      initialSession\<lparr>sources := [\<lparr>sourceMatchId = ''m1'', sourceOpen = True\<rparr>],
        streamRef := Some 0, matchId := Some ''m1'', status := Running\<rparr>"
    by (simp add: liveSession_def openStream_def closeStream_def initialSession_def)
  have h1: "timersTracked (liveSession Running)"
    by (simp add: l timersTracked_def initialSession_def)
  have h2: "streamRef (liveSession Running) = Some 0"
    by (simp add: l)
  have h3: "0 < length (sources (liveSession Running))"
    by (simp add: l)
  have c: "timeoutCount (liveSession Running) = 0" "length (sources (liveSession Running)) = 1"
    by (simp_all add: l initialSession_def)
  show ?thesis
    using h1 h2 c onError_schedules_one_retry [OF h1 h2 h3, of "''m1''"]
    by (simp add: Let_def)
qed

section \<open>Simulator\<close>

lemma clockValues_append: "clockValues (a @ b) = clockValues a @ clockValues b"
  by (induction a rule: clockValues.induct) auto

lemma moveCodes_append: "moveCodes (a @ b) = moveCodes a @ moveCodes b"
  by (induction a rule: moveCodes.induct) auto

lemma playable_script: "playable createStartBoard (map fst mockMoves)"
  by code_simp

lemma stopped_step: "stopped s \<Longrightarrow> fst (step t s) = [] \<and> stopped (snd (step t s))"
  by (cases t) (auto simp: stopped_def clockTick_def moveTick_def closeSim_def)

lemma closed_step: "closed s \<Longrightarrow> fst (step t s) = [] \<and> closed (snd (step t s))"
  by (cases t) (auto simp: clockTick_def moveTick_def closeSim_def)

lemma closed_run: "closed s \<Longrightarrow> run ts s = []"
  by (induction ts arbitrary: s) (auto simp: closed_step)

lemma stopped_runState: "stopped s \<Longrightarrow> stopped (runState ts s)"
  by (induction ts arbitrary: s) (auto simp: stopped_step)

lemma simInv_clockTick:
  assumes "simInv s"
  shows "simInv (snd (clockTick s))" "moveIndex (snd (clockTick s)) = moveIndex s"
    "\<exists>w b. fst (clockTick s) = [Clock w b]"
  using assms by (auto simp: simInv_def clockTick_def Let_def)

lemma simInv_moveTick_end:
  assumes "simInv s" "length mockMoves \<le> moveIndex s"
  shows "fst (moveTick s) = [Result ''1-0'' ''checkmate'']" "stopped (snd (moveTick s))"
  using assms by (auto simp: simInv_def moveTick_def stopped_def)

lemma simInv_moveTick_play:
  assumes "simInv s" "moveIndex s < length mockMoves"
  shows "\<exists>san position movesText.
           fst (moveTick s) =
             [Move (moveIndex s + 1) (fst (mockMoves ! moveIndex s)) san position movesText]"
    and "simInv (snd (moveTick s))"
    and "moveIndex (snd (moveTick s)) = Suc (moveIndex s)"
proof -
  obtain uci san where m: "mockMoves ! moveIndex s = (uci, san)"
    by (cases "mockMoves ! moveIndex s")
  have d: "drop (moveIndex s) mockMoves = (uci, san) # drop (Suc (moveIndex s)) mockMoves"
    using assms(2) m Cons_nth_drop_Suc [of "moveIndex s" mockMoves] by simp
  from assms(1) have "playable (simBoard s) (uci # map fst (drop (Suc (moveIndex s)) mockMoves))"
    by (simp add: simInv_def d)
  then obtain b where b: "applyUciMove (simBoard s) uci = (b, None)"
    "playable b (map fst (drop (Suc (moveIndex s)) mockMoves))"
    by (auto split: prod.splits option.splits)
  have t: "\<not> (\<not> moveTimer s \<or> closed s)" "\<not> length mockMoves \<le> moveIndex s"
    using assms by (auto simp: simInv_def)
  show "\<exists>san position movesText.
           fst (moveTick s) =
             [Move (moveIndex s + 1) (fst (mockMoves ! moveIndex s)) san position movesText]"
    unfolding moveTick_def using t m b by (simp add: Let_def)
  show "simInv (snd (moveTick s))"
    unfolding moveTick_def using t m b assms(1) by (simp add: Let_def simInv_def)
  show "moveIndex (snd (moveTick s)) = Suc (moveIndex s)"
    unfolding moveTick_def using t m b by (simp add: Let_def)
qed

lemma run_shape:
  assumes "simInv s"
  shows "(\<not> list_ex isResult (run ts s)
          \<and> (\<exists>k. moveCodes (run ts s) = take k (map fst (drop (moveIndex s) mockMoves))))
       \<or> (\<exists>pre. run ts s = pre @ [Result ''1-0'' ''checkmate'']
            \<and> \<not> list_ex isResult pre
            \<and> moveCodes pre = map fst (drop (moveIndex s) mockMoves)
            \<and> stopped (runState ts s))"
  using assms
proof (induction ts arbitrary: s)
  case Nil
  have "\<not> list_ex isResult (run [] s)
    \<and> moveCodes (run [] s) = take 0 (map fst (drop (moveIndex s) mockMoves))" by simp
  then show ?case by blast
next
  case (Cons t ts)
  show ?case
  proof (cases t)
    case ClockTick
    let ?s = "snd (clockTick s)"
    from simInv_clockTick [OF Cons.prems] obtain w b where
      c: "simInv ?s" "moveIndex ?s = moveIndex s" "fst (clockTick s) = [Clock w b]"
      by blast
    have r: "run (t # ts) s = Clock w b # run ts ?s" "runState (t # ts) s = runState ts ?s"
      using ClockTick c by simp_all
    from Cons.IH [OF c(1)] show ?thesis
    proof (elim disjE conjE exE)
      fix k
      assume "\<not> list_ex isResult (run ts ?s)"
        "moveCodes (run ts ?s) = take k (map fst (drop (moveIndex ?s) mockMoves))"
      then have "\<not> list_ex isResult (run (t # ts) s)
          \<and> moveCodes (run (t # ts) s) = take k (map fst (drop (moveIndex s) mockMoves))"
        unfolding r by (simp add: c)
      then show ?thesis by blast
    next
      fix pre
      assume "run ts ?s = pre @ [Result ''1-0'' ''checkmate'']" "\<not> list_ex isResult pre"
        "moveCodes pre = map fst (drop (moveIndex ?s) mockMoves)" "stopped (runState ts ?s)"
      then have "run (t # ts) s = (Clock w b # pre) @ [Result ''1-0'' ''checkmate'']
            \<and> \<not> list_ex isResult (Clock w b # pre)
            \<and> moveCodes (Clock w b # pre) = map fst (drop (moveIndex s) mockMoves)
            \<and> stopped (runState (t # ts) s)"
        unfolding r by (simp add: c)
      then show ?thesis by blast
    qed
  next
    case Close
    have "closed (closeSim s)" by (simp add: closeSim_def)
    then have "run (t # ts) s = []"
      using Close by (simp add: closed_run)
    then have "\<not> list_ex isResult (run (t # ts) s)
          \<and> moveCodes (run (t # ts) s) = take 0 (map fst (drop (moveIndex s) mockMoves))"
      by simp
    then show ?thesis by blast
  next
    case MoveTick
    show ?thesis
    proof (cases "length mockMoves \<le> moveIndex s")
      case True
      let ?s = "snd (moveTick s)"
      note e = simInv_moveTick_end [OF Cons.prems True]
      have "closed ?s" using e(2) by (simp add: stopped_def)
      then have "run (t # ts) s = [] @ [Result ''1-0'' ''checkmate'']"
        using MoveTick e(1) by (simp add: closed_run)
      moreover have "stopped (runState (t # ts) s)"
        using MoveTick e(2) by (simp add: stopped_runState)
      moreover have "moveCodes [] = map fst (drop (moveIndex s) mockMoves)"
        using True by simp
      moreover have "\<not> list_ex isResult []" by simp
      ultimately show ?thesis by blast
    next
      case False
      let ?s = "snd (moveTick s)"
      let ?u = "fst (mockMoves ! moveIndex s)"
      from False have lt: "moveIndex s < length mockMoves" by simp
      from simInv_moveTick_play [OF Cons.prems lt] obtain san position movesText where
        c: "fst (moveTick s) = [Move (moveIndex s + 1) ?u san position movesText]"
          "simInv ?s" "moveIndex ?s = Suc (moveIndex s)"
        by blast
      let ?m = "Move (moveIndex s + 1) ?u san position movesText"
      have d: "map fst (drop (moveIndex s) mockMoves) = ?u # map fst (drop (Suc (moveIndex s)) mockMoves)"
        using lt Cons_nth_drop_Suc [of "moveIndex s" mockMoves] by (metis list.simps(9))
      have r: "run (t # ts) s = ?m # run ts ?s" "runState (t # ts) s = runState ts ?s"
        using MoveTick c by simp_all
      from Cons.IH [OF c(2)] show ?thesis
      proof (elim disjE conjE exE)
        fix k
        assume "\<not> list_ex isResult (run ts ?s)"
          "moveCodes (run ts ?s) = take k (map fst (drop (moveIndex ?s) mockMoves))"
        then have "\<not> list_ex isResult (run (t # ts) s)
          \<and> moveCodes (run (t # ts) s) = take (Suc k) (map fst (drop (moveIndex s) mockMoves))"
          unfolding r by (simp add: c d)
        then show ?thesis by blast
      next
        fix pre
        assume "run ts ?s = pre @ [Result ''1-0'' ''checkmate'']" "\<not> list_ex isResult pre"
          "moveCodes pre = map fst (drop (moveIndex ?s) mockMoves)" "stopped (runState ts ?s)"
        then have "run (t # ts) s = (?m # pre) @ [Result ''1-0'' ''checkmate'']
            \<and> \<not> list_ex isResult (?m # pre)
            \<and> moveCodes (?m # pre) = map fst (drop (moveIndex s) mockMoves)
            \<and> stopped (runState (t # ts) s)"
          unfolding r by (simp add: c d)
        then show ?thesis by blast
      qed
    qed
  qed
qed

lemma run_reaches_result:
  "simInv s \<Longrightarrow> Close \<notin> set ts \<Longrightarrow> length mockMoves - moveIndex s < moveTicks ts \<Longrightarrow>
   list_ex isResult (run ts s)"
proof (induction ts arbitrary: s)
  case Nil
  then show ?case by (simp add: moveTicks_def)
next
  case (Cons t ts)
  show ?case
  proof (cases t)
    case ClockTick
    with Cons.prems Cons.IH [of "snd (clockTick s)"] simInv_clockTick [OF Cons.prems(1)]
    show ?thesis by (auto simp: moveTicks_def)
  next
    case Close
    with Cons.prems show ?thesis by simp
  next
    case MoveTick
    show ?thesis
    proof (cases "length mockMoves \<le> moveIndex s")
      case True
      with simInv_moveTick_end [OF Cons.prems(1) True] MoveTick show ?thesis by simp
    next
      case False
      then have lt: "moveIndex s < length mockMoves" by simp
      note p = simInv_moveTick_play [OF Cons.prems(1) lt]
      have "length mockMoves - moveIndex (snd (moveTick s)) < moveTicks ts"
        using Cons.prems(3) MoveTick lt p(3) by (simp add: moveTicks_def)
      with Cons.IH [OF p(2)] Cons.prems(2) have "list_ex isResult (run ts (snd (moveTick s)))"
        by simp
      with MoveTick show ?thesis by simp
    qed
  qed
qed

lemma result_is_last:
  assumes "xs @ [r] = pre @ ev # post" "\<not> list_ex isResult xs" "isResult ev"
  shows "post = [] \<and> pre = xs \<and> ev = r"
proof (cases post rule: rev_cases)
  case Nil
  with assms(1) show ?thesis by simp
next
  case (snoc post' z)
  with assms(1) have "xs = pre @ ev # post'" by simp
  with assms(2,3) show ?thesis by (simp add: list_ex_iff)
qed

lemma simInv_start: "simInv (snd (createMockStream initialMs))"
  using playable_script by (simp add: simInv_def createMockStream_def)

text \<open>
  C6. In every run of a simulator (any interleaving of the two intervals and of
  \<^verbatim>\<open>close\<close>) at most one result is emitted; when one is emitted it is the last
  event, the moves emitted before it are the whole script in order, the simulator is
  closed with both intervals cleared, and no further firing emits anything. When the
  handle is not closed and the move interval fires more often than the script is long,
  exactly one result is emitted.
\<close>

theorem one_result_after_all_moves:
  "let evs = simEvents initialMs ticks in
     length (filter isResult evs) \<le> 1
   \<and> (\<forall>pre ev post. evs = pre @ ev # post \<and> isResult ev \<longrightarrow>
         post = [] \<and> ev = Result ''1-0'' ''checkmate'' \<and> moveCodes pre = map fst mockMoves
       \<and> stopped (runState ticks (snd (createMockStream initialMs)))
       \<and> (\<forall>more. run more (runState ticks (snd (createMockStream initialMs))) = []))
   \<and> (Close \<notin> set ticks \<and> length mockMoves < moveTicks ticks \<longrightarrow>
         length (filter isResult evs) = 1)"
proof -
  let ?s0 = "snd (createMockStream initialMs)"
  let ?init = "[OnOpen, MatchStarted ''mock'' startFen]"
  define evs where "evs = simEvents initialMs ticks"
  have evs: "evs = ?init @ run ticks ?s0"
    by (simp add: evs_def simEvents_def createMockStream_def)
  have idx: "moveIndex ?s0 = 0" by (simp add: createMockStream_def)
  have live: "list_ex isResult (run ticks ?s0)"
    if "Close \<notin> set ticks" "length mockMoves < moveTicks ticks"
    using run_reaches_result [OF simInv_start that(1)] that(2) idx by simp
  from run_shape [OF simInv_start, of ticks initialMs]
  show ?thesis
  proof (elim disjE conjE exE)
    fix k
    assume n: "\<not> list_ex isResult (run ticks ?s0)"
    then have no: "\<not> list_ex isResult evs" by (simp add: evs)
    then have "filter isResult evs = []"
      by (simp add: list_ex_iff filter_empty_conv)
    then have c1: "length (filter isResult evs) \<le> 1" by simp
    have c2: "\<not> (evs = pre @ ev # post \<and> isResult ev)" for pre ev post
      using no by (auto simp: list_ex_iff)
    have c3: "\<not> (Close \<notin> set ticks \<and> length mockMoves < moveTicks ticks)"
      using live n by blast
    show ?thesis
      unfolding Let_def evs_def [symmetric] using c1 c2 c3 by blast
  next
    fix pre0
    assume a: "run ticks ?s0 = pre0 @ [Result ''1-0'' ''checkmate'']"
      "\<not> list_ex isResult pre0" "moveCodes pre0 = map fst (drop (moveIndex ?s0) mockMoves)"
      "stopped (runState ticks ?s0)"
    have e: "evs = (?init @ pre0) @ [Result ''1-0'' ''checkmate'']"
      by (simp add: evs a)
    have nr: "\<not> list_ex isResult (?init @ pre0)" using a(2) by simp
    have mc: "moveCodes (?init @ pre0) = map fst mockMoves"
      using a(3) idx by (simp add: moveCodes_append)
    have "filter isResult evs = [Result ''1-0'' ''checkmate'']"
      using nr by (simp add: e list_ex_iff filter_empty_conv del: append_assoc)
    then have one: "length (filter isResult evs) = 1" by simp
    have last: "post = [] \<and> ev = Result ''1-0'' ''checkmate'' \<and> moveCodes pre = map fst mockMoves"
      if "evs = pre @ ev # post" "isResult ev" for pre ev post
      using result_is_last [OF that(1) [unfolded e, symmetric, THEN sym] nr that(2)] mc by simp
    have dead: "run more (runState ticks ?s0) = []" for more
      using a(4) by (simp add: closed_run stopped_def)
    have le: "length (filter isResult evs) \<le> 1" using one by simp
    show ?thesis
      unfolding Let_def evs_def [symmetric] using one le last a(4) dead by blast
  qed
qed

theorem one_result_after_all_moves_witness:
  "Close \<notin> set (replicate 21 MoveTick @ [ClockTick, MoveTick])
   \<and> length mockMoves < moveTicks (replicate 21 MoveTick @ [ClockTick, MoveTick])
   \<and> length (filter isResult (simEvents (num 300000) (replicate 21 MoveTick @ [ClockTick, MoveTick]))) = 1
   \<and> isResult (last (simEvents (num 300000) (replicate 21 MoveTick @ [ClockTick, MoveTick])))
   \<and> moveCodes (butlast (simEvents (num 300000) (replicate 21 MoveTick @ [ClockTick, MoveTick])))
       = map fst mockMoves"
proof -
  let ?ts = "replicate 21 MoveTick @ [ClockTick, MoveTick]"
  let ?evs = "simEvents (num 300000) ?ts"
  have h: "Close \<notin> set ?ts" "length mockMoves < moveTicks ?ts"
    by (simp_all add: moveTicks_def mockMoves_def)
  have any: "last (simEvents x ?ts) = Result ''1-0'' ''checkmate'' \<and> simEvents x ?ts \<noteq> []" for x
    by code_simp
  have l: "last ?evs = Result ''1-0'' ''checkmate''" "?evs \<noteq> []"
    using any [of "num 300000"] by simp_all
  have sp1: "?evs = butlast ?evs @ last ?evs # []"
    using append_butlast_last_id [OF l(2)] by simp
  have sp2: "isResult (last ?evs)"
    using l(1) by simp
  note sp = sp1 sp2
  from one_result_after_all_moves [of "num 300000" ?ts] h
  have one: "length (filter isResult ?evs) = 1"
    unfolding Let_def by blast
  from one_result_after_all_moves [of "num 300000" ?ts] sp
  have "moveCodes (butlast ?evs) = map fst mockMoves"
    unfolding Let_def by blast
  with h one sp(2) show ?thesis by blast
qed


subsection \<open>Rounding to a double\<close>

lemma shiftOf_small: "a < 2 ^ 53 \<Longrightarrow> shiftOf a = 0"
  by (simp add: shiftOf.simps [of a])

lemma shiftOf_step: "\<not> a < 2 ^ 53 \<Longrightarrow> shiftOf a = Suc (shiftOf (a div 2))"
  by (simp add: shiftOf.simps [of a])

lemma shiftOf_upper: "a < 2 ^ (53 + shiftOf a)"
proof (induction a rule: shiftOf.induct)
  case (1 a)
  show ?case
  proof (cases "a < 2 ^ 53")
    case True
    then show ?thesis by (simp add: shiftOf_small)
  next
    case False
    then have ih: "a div 2 < 2 ^ (53 + shiftOf (a div 2))" by (rule "1.IH")
    have "a < 2 * (a div 2) + 2" by arith
    with ih have "a < 2 * 2 ^ (53 + shiftOf (a div 2))" by arith
    then have "a < 2 ^ (53 + Suc (shiftOf (a div 2)))" by (simp only: add_Suc_right power_Suc)
    then show ?thesis unfolding shiftOf_step [OF False] .
  qed
qed

lemma shiftOf_lower: "0 < shiftOf a \<Longrightarrow> 2 ^ (52 + shiftOf a) \<le> a"
proof (induction a rule: shiftOf.induct)
  case (1 a)
  show ?case
  proof (cases "a < 2 ^ 53")
    case True
    with "1.prems" show ?thesis by (simp add: shiftOf_small)
  next
    case False
    show ?thesis
    proof (cases "0 < shiftOf (a div 2)")
      case True
      then have "2 ^ (52 + shiftOf (a div 2)) \<le> a div 2" using False by (intro "1.IH")
      then have "2 * 2 ^ (52 + shiftOf (a div 2)) \<le> a" by arith
      then have "2 ^ (52 + Suc (shiftOf (a div 2))) \<le> a" by (simp only: add_Suc_right power_Suc)
      then show ?thesis unfolding shiftOf_step [OF False] .
    next
      case z: False
      then have "shiftOf a = 1" by (simp add: shiftOf_step [OF False])
      with False show ?thesis by simp
    qed
  qed
qed

lemma shiftOf_mono: "b \<le> a \<Longrightarrow> shiftOf b \<le> shiftOf a"
proof (rule ccontr)
  assume le: "b \<le> a" and "\<not> shiftOf b \<le> shiftOf a"
  then have gt: "shiftOf a < shiftOf b" by simp
  then have "(2::nat) ^ (52 + shiftOf b) \<le> b" by (intro shiftOf_lower) simp
  also have "b \<le> a" by (rule le)
  also have "a < 2 ^ (53 + shiftOf a)" by (rule shiftOf_upper)
  finally have "52 + shiftOf b < 53 + shiftOf a"
    by (simp only: power_strict_increasing_iff [of "2::nat"])
  with gt show False by simp
qed

lemma roundNat_exact: "2 ^ shiftOf a dvd a \<Longrightarrow> roundNat a = a"
  by (auto simp: roundNat_def Let_def dvd_eq_mod_eq_0)

lemma roundNat_dvd: "2 ^ shiftOf a dvd roundNat a"
  by (simp add: roundNat_def Let_def)

lemma roundNat_fixed_dvd: "roundNat a = a \<Longrightarrow> 2 ^ shiftOf a dvd a"
  using roundNat_dvd [of a] by simp

lemma roundNat_scaled: "m \<le> 2 ^ 53 \<Longrightarrow> roundNat (m * 2 ^ e) = m * 2 ^ e"
proof (rule roundNat_exact)
  assume m: "m \<le> 2 ^ 53"
  let ?t = "shiftOf (m * 2 ^ e)"
  show "2 ^ ?t dvd m * 2 ^ e"
  proof (cases "?t \<le> e")
    case True
    then have "(2::nat) ^ ?t dvd 2 ^ e" by (rule le_imp_power_dvd)
    then show ?thesis by (rule dvd_mult)
  next
    case False
    then have pos: "0 < ?t" by simp
    have "(2::nat) ^ (52 + ?t) \<le> m * 2 ^ e" using pos by (rule shiftOf_lower)
    also have "\<dots> \<le> 2 ^ 53 * 2 ^ e" using m by simp
    also have "\<dots> = 2 ^ (53 + e)" by (simp add: power_add)
    finally have "52 + ?t \<le> 53 + e"
      by (simp only: power_increasing_iff [of "2::nat"]) 
    with False have t: "?t = Suc e" by simp
    have "(2::nat) ^ (53 + e) \<le> m * 2 ^ e"
      using shiftOf_lower [OF pos] t by simp
    then have "(2::nat) ^ 53 * 2 ^ e \<le> m * 2 ^ e" by (simp add: power_add)
    then have "2 ^ 53 \<le> m" by simp
    with m have "m = 2 ^ 53" by simp
    then have "m * 2 ^ e = 2 ^ (53 + e)" by (simp add: power_add)
    moreover have "(2::nat) ^ Suc e dvd 2 ^ (53 + e)" by (rule le_imp_power_dvd) simp
    ultimately show ?thesis using t by simp
  qed
qed

lemma roundNat_small: "a \<le> 2 ^ 53 \<Longrightarrow> roundNat a = a"
  using roundNat_scaled [of a 0] by simp

lemma roundNat_form: "\<exists>k \<le> 2 ^ 53. roundNat a = k * 2 ^ shiftOf a"
proof -
  let ?u = "(2::nat) ^ shiftOf a"
  have "a < 2 ^ 53 * ?u" using shiftOf_upper [of a] by (simp add: power_add)
  then have q: "a div ?u < 2 ^ 53" by (simp add: less_mult_imp_div_less)
  then have "a div ?u \<le> 2 ^ 53 \<and> a div ?u + 1 \<le> 2 ^ 53" by simp
  then show ?thesis
    unfolding roundNat_def Let_def by (metis (full_types))
qed

lemma roundNat_idem: "roundNat (roundNat a) = roundNat a"
  using roundNat_form [of a] roundNat_scaled by auto

lemma roundNat_le:
  assumes "b \<le> n" "2 ^ shiftOf b dvd n"
  shows "roundNat b \<le> n"
proof -
  let ?u = "(2::nat) ^ shiftOf b"
  obtain k where k: "n = ?u * k" using assms(2) by (auto simp: dvd_def)
  have "b div ?u * ?u \<le> b" by (rule div_times_less_eq_dividend)
  then have down: "b div ?u * ?u \<le> n"
    using assms(1) by (rule order_trans)
  have up: "(b div ?u + 1) * ?u \<le> n" if "0 < b mod ?u"
  proof -
    have "b div ?u * ?u < b" using that
      by (metis add.commute div_mult_mod_eq less_add_same_cancel2 mult.commute)
    then have "b div ?u * ?u < n" using assms(1) by (rule less_le_trans)
    then have "b div ?u * ?u < k * ?u" unfolding k by (simp only: mult.commute)
    then have "b div ?u < k" by simp
    then have "b div ?u + 1 \<le> k" by simp
    then have "(b div ?u + 1) * ?u \<le> k * ?u" by (rule mult_le_mono1)
    then show ?thesis using k by (simp add: mult.commute)
  qed
  have rpos: "0 < b mod ?u" if "?u < 2 * (b mod ?u) \<or> 2 * (b mod ?u) = ?u"
    using that by (cases "b mod ?u = 0") auto
  show ?thesis
  proof (cases "?u < 2 * (b mod ?u) \<or> (2 * (b mod ?u) = ?u \<and> odd (b div ?u))")
    case True
    then have "0 < b mod ?u" by (intro rpos) blast
    then have "(b div ?u + 1) * ?u \<le> n" by (rule up)
    moreover have "roundNat b = (b div ?u + 1) * ?u"
      unfolding roundNat_def Let_def by (rule if_P [OF True])
    ultimately show ?thesis by simp
  next
    case False
    have "roundNat b = b div ?u * ?u"
      unfolding roundNat_def Let_def by (rule if_not_P [OF False])
    with down show ?thesis by simp
  qed
qed

lemma roundNat_minus_exact:
  assumes fixed: "roundNat n = n" and lt: "n < 2 ^ (53 + e)" and c: "2 ^ e dvd c" "c \<le> n"
  shows "roundNat (n - c) = n - c"
proof (rule roundNat_exact)
  let ?s = "shiftOf n"
  have se: "?s \<le> e"
  proof (rule ccontr)
    assume "\<not> ?s \<le> e"
    then have pos: "0 < ?s" and gt: "e < ?s" by simp_all
    have "(2::nat) ^ (52 + ?s) \<le> n" using pos by (rule shiftOf_lower)
    also note lt
    finally have "52 + ?s < 53 + e"
      by (simp only: power_strict_increasing_iff [of "2::nat"])
    with gt show False by simp
  qed
  have "2 ^ ?s dvd n" using fixed by (rule roundNat_fixed_dvd)
  moreover have "2 ^ ?s dvd c"
    using se c(1) by (meson dvd_trans le_imp_power_dvd)
  ultimately have "2 ^ ?s dvd n - c" by (rule dvd_diff_nat)
  moreover have "(2::nat) ^ shiftOf (n - c) dvd 2 ^ ?s"
    by (intro le_imp_power_dvd shiftOf_mono) simp
  ultimately show "2 ^ shiftOf (n - c) dvd n - c" by (rule dvd_trans [rotated])
qed

lemma shiftOf_unique:
  assumes "2 ^ (52 + t) \<le> a" "a < 2 ^ (53 + t)" "0 < t"
  shows "shiftOf a = t"
proof (rule antisym)
  have "(2::nat) ^ (52 + t) \<le> a" by (rule assms(1))
  also have "a < 2 ^ (53 + shiftOf a)" by (rule shiftOf_upper)
  finally have "52 + t < 53 + shiftOf a"
    by (simp only: power_strict_increasing_iff [of "2::nat"])
  then show ts: "t \<le> shiftOf a" by simp
  with assms(3) have "0 < shiftOf a" by simp
  then have "(2::nat) ^ (52 + shiftOf a) \<le> a" by (rule shiftOf_lower)
  also note assms(2)
  finally have "52 + shiftOf a < 53 + t"
    by (simp only: power_strict_increasing_iff [of "2::nat"])
  then show "shiftOf a \<le> t" by simp
qed

lemma roundNat_shift: "roundNat (a * 2 ^ k) = roundNat a * 2 ^ k"
proof (cases "a < 2 ^ 53")
  case True
  then show ?thesis by (simp add: roundNat_scaled roundNat_small)
next
  case False
  let ?s = "shiftOf a"
  have pos: "0 < ?s" by (simp add: shiftOf_step [OF False])
  have "(2::nat) ^ (52 + ?s) * 2 ^ k \<le> a * 2 ^ k"
    using shiftOf_lower [OF pos] by simp
  then have lo: "(2::nat) ^ (52 + (?s + k)) \<le> a * 2 ^ k"
    by (simp only: power_add mult.assoc)
  have "a * 2 ^ k < 2 ^ (53 + ?s) * 2 ^ k"
    using shiftOf_upper [of a] by simp
  then have hi: "a * 2 ^ k < 2 ^ (53 + (?s + k))"
    by (simp only: power_add mult.assoc)
  have sh: "shiftOf (a * 2 ^ k) = ?s + k"
    using lo hi pos by (intro shiftOf_unique) simp_all
  have d: "(a * 2 ^ k) div (2 ^ ?s * 2 ^ k) = a div 2 ^ ?s"
    by simp
  have m: "(a * 2 ^ k) mod (2 ^ ?s * 2 ^ k) = a mod 2 ^ ?s * 2 ^ k"
    by (simp add: mult_mod_left)
  show ?thesis
    unfolding roundNat_def Let_def sh power_add d m by (simp add: algebra_simps)
qed

lemma roundDouble_fixed:
  "0 \<le> n \<Longrightarrow> roundNat (nat n) = nat n \<Longrightarrow> nat n < 2 ^ 2098 \<Longrightarrow> roundDouble n = Fin n"
  by (simp add: roundDouble_def Let_def)

lemma isDouble_nonneg:
  assumes "isDouble (Fin n)" "0 \<le> n"
  shows "roundNat (nat n) = nat n" "nat n < 2 ^ 2098"
proof -
  from assms(1) have r: "roundDouble n = Fin n" by (simp add: isDouble_def)
  with assms(2) have l: "\<not> 2 ^ 2098 \<le> roundNat (nat n)"
    by (auto simp: roundDouble_def Let_def split: if_splits)
  with r assms(2) have "int (roundNat (nat n)) = n"
    by (simp add: roundDouble_def Let_def)
  then show f: "roundNat (nat n) = nat n" by simp
  with l show "nat n < 2 ^ 2098" by simp
qed

lemma isDouble_zero: "isDouble (Fin 0)"
  by (simp add: isDouble_def roundDouble_def Let_def roundNat_small)

lemma isDouble_special: "isDouble PosInf" "isDouble NegInf" "isDouble NaN"
  by (simp_all add: isDouble_def)

lemma isDouble_roundDouble: "isDouble (roundDouble n)"
proof (cases "2 ^ 2098 \<le> roundNat (nat \<bar>n\<bar>)")
  case True
  then show ?thesis by (simp add: roundDouble_def Let_def isDouble_def)
next
  case False
  let ?a = "roundNat (nat \<bar>n\<bar>)"
  have i: "roundNat ?a = ?a" by (rule roundNat_idem)
  show ?thesis
  proof (cases "n < 0")
    case True
    have "roundDouble n = Fin (- int ?a)"
      using False True by (simp add: roundDouble_def Let_def)
    moreover have "roundDouble (- int ?a) = Fin (- int ?a)"
      using False i by (simp add: roundDouble_def Let_def)
    ultimately show ?thesis by (simp add: isDouble_def)
  next
    case nn: False
    have "roundDouble n = Fin (int ?a)"
      using False nn by (simp add: roundDouble_def Let_def)
    moreover have "roundDouble (int ?a) = Fin (int ?a)"
      using False i by (simp add: roundDouble_def Let_def)
    ultimately show ?thesis by (simp add: isDouble_def)
  qed
qed

lemma mathMax0_negative: "n < 0 \<Longrightarrow> mathMax0 (roundDouble n) = Fin 0"
  by (simp add: roundDouble_def Let_def mathMax0_def)

lemma isDouble_mathMax0: "isDouble x \<Longrightarrow> isDouble (mathMax0 x)"
  by (cases x) (auto simp: mathMax0_def isDouble_zero max_def) 

lemma tickValue_exact:
  assumes d: "isDouble (Fin n)" and lt: "n < 2 ^ 56 * doubleUnit"
  shows "tickValue (Fin n) = Fin (max 0 (n - 200 * doubleUnit))
       \<and> isDouble (Fin (max 0 (n - 200 * doubleUnit)))"
proof (cases "n - 200 * doubleUnit < 0")
  case True
  then show ?thesis
    by (simp add: tickValue_def minus200_def mathMax0_negative isDouble_zero)
next
  case False
  have c: "200 * doubleUnit = int (25 * 2 ^ 1077)"
    by (simp add: doubleUnit_def)
  have n0: "0 \<le> n" using False by (simp add: c)
  note f = isDouble_nonneg [OF d n0]
  have "n < int (2 ^ (53 + 1077))" using lt by (simp add: doubleUnit_def)
  then have l: "nat n < 2 ^ (53 + 1077)" using n0 by linarith
  have le: "25 * 2 ^ 1077 \<le> nat n" using False c by linarith
  have "roundNat (nat n - 25 * 2 ^ 1077) = nat n - 25 * 2 ^ 1077"
    using f(1) l _ le by (rule roundNat_minus_exact) simp
  moreover have "nat (n - 200 * doubleUnit) = nat n - 25 * 2 ^ 1077"
    unfolding c using n0 by linarith
  moreover have "nat n - 25 * 2 ^ 1077 < 2 ^ 2098"
    using f(2) by linarith
  ultimately have r: "roundDouble (n - 200 * doubleUnit) = Fin (n - 200 * doubleUnit)"
    using False by (intro roundDouble_fixed) simp_all
  then have "isDouble (Fin (n - 200 * doubleUnit))" by (simp add: isDouble_def)
  with r False show ?thesis
    by (simp add: tickValue_def minus200_def mathMax0_def max_def)
qed

lemma tickValue_general:
  assumes "x \<noteq> NaN"
  shows "tickValue x \<noteq> NaN \<and> isDouble (tickValue x) \<and> jsLe (Fin 0) (tickValue x)"
proof (cases x)
  case (Fin n)
  have m: "minus200 x = roundDouble (n - 200 * doubleUnit)" by (simp add: Fin minus200_def)
  have "isDouble (mathMax0 (roundDouble (n - 200 * doubleUnit)))"
    by (intro isDouble_mathMax0 isDouble_roundDouble)
  moreover have "mathMax0 (roundDouble k) \<noteq> NaN \<and> jsLe (Fin 0) (mathMax0 (roundDouble k))" for k
    by (simp add: roundDouble_def Let_def mathMax0_def)
  ultimately show ?thesis by (simp add: tickValue_def m)
qed (use assms in \<open>simp_all add: tickValue_def minus200_def mathMax0_def isDouble_special isDouble_zero\<close>)

lemma tickValue_le:
  assumes d: "isDouble x" and nn: "jsLe (Fin 0) x"
  shows "jsLe (tickValue x) x"
proof (cases x)
  case (Fin n)
  with nn have n0: "0 \<le> n" by simp
  show ?thesis
  proof (cases "n - 200 * doubleUnit < 0")
    case True
    with n0 show ?thesis
      by (simp add: Fin tickValue_def minus200_def mathMax0_negative)
  next
    case False
    have c0: "0 \<le> 200 * doubleUnit" by (simp add: doubleUnit_def)
    let ?b = "nat (n - 200 * doubleUnit)"
    note f = isDouble_nonneg [OF d [unfolded Fin] n0]
    have le: "?b \<le> nat n" using c0 by linarith
    have "2 ^ shiftOf (nat n) dvd nat n" using f(1) by (rule roundNat_fixed_dvd)
    moreover have "(2::nat) ^ shiftOf ?b dvd 2 ^ shiftOf (nat n)"
      using le by (intro le_imp_power_dvd shiftOf_mono)
    ultimately have "2 ^ shiftOf ?b dvd nat n" by (rule dvd_trans [rotated])
    with le have r: "roundNat ?b \<le> nat n" by (rule roundNat_le)
    with f(2) have "\<not> 2 ^ 2098 \<le> roundNat ?b" by linarith
    with False have "roundDouble (n - 200 * doubleUnit) = Fin (int (roundNat ?b))"
      by (simp add: roundDouble_def Let_def)
    with r n0 show ?thesis
      by (simp add: Fin tickValue_def minus200_def mathMax0_def)
  qed
qed (use nn in \<open>simp_all add: tickValue_def minus200_def mathMax0_def\<close>)

lemma num_small: "\<bar>k\<bar> \<le> 2 ^ 53 \<Longrightarrow> num k = Fin (k * doubleUnit)"
proof -
  assume k: "\<bar>k\<bar> \<le> 2 ^ 53"
  have a: "nat \<bar>k * doubleUnit\<bar> = nat \<bar>k\<bar> * 2 ^ 1074"
    by (simp add: doubleUnit_def abs_mult nat_mult_distrib)
  have m: "nat \<bar>k\<bar> \<le> 2 ^ 53" using k by (simp add: nat_le_iff)
  have r: "roundNat (nat \<bar>k\<bar> * 2 ^ 1074) = nat \<bar>k\<bar> * 2 ^ 1074"
    using m by (rule roundNat_scaled)
  have "nat \<bar>k\<bar> * 2 ^ 1074 \<le> 2 ^ 53 * 2 ^ 1074" using m by simp
  also have "\<dots> < (2::nat) ^ 2098" by simp
  finally have lt: "\<not> 2 ^ 2098 \<le> nat \<bar>k\<bar> * 2 ^ 1074" by simp
  have s: "(k * doubleUnit < 0) = (k < 0)"
    by (simp add: doubleUnit_def mult_less_0_iff)
  show ?thesis
    unfolding num_def roundDouble_def Let_def a r using lt
    by (simp add: s) (simp add: doubleUnit_def)
qed

lemma roundDouble_scaled:
  assumes "0 \<le> k" "roundNat (nat k) * 2 ^ 1074 < 2 ^ 2098"
  shows "roundDouble (k * doubleUnit) = Fin (int (roundNat (nat k)) * doubleUnit)"
proof -
  have a: "nat \<bar>k * doubleUnit\<bar> = nat k * 2 ^ 1074"
    using assms(1) by (simp add: doubleUnit_def abs_mult nat_mult_distrib)
  have n: "\<not> k * doubleUnit < 0"
    using assms(1) by (simp add: doubleUnit_def mult_less_0_iff)
  show ?thesis
    unfolding roundDouble_def Let_def a roundNat_shift using assms(2) n
    by (simp add: doubleUnit_def)
qed


subsection \<open>The clock values of a run\<close>

lemma clockTick_emits:
  "\<not> closed s \<Longrightarrow> clockTimer s \<Longrightarrow>
   fst (clockTick s) = [Clock (tickValue (whiteMs s)) (tickValue (blackMs s))]
   \<and> whiteMs (snd (clockTick s)) = tickValue (whiteMs s)
   \<and> blackMs (snd (clockTick s)) = tickValue (blackMs s)"
  by (simp add: clockTick_def Let_def)

lemma moveTick_clock:
  "clockValues (fst (moveTick s)) = []
   \<and> whiteMs (snd (moveTick s)) = whiteMs s \<and> blackMs (snd (moveTick s)) = blackMs s"
  by (auto simp: moveTick_def Let_def split: prod.splits option.splits)

lemma upt_shift: "[0..<Suc n] = 0 # map Suc [0..<n]"
  by (simp add: upt_rec [of 0 "Suc n"] map_Suc_upt del: upt_Suc)

lemma run_clockValues:
  assumes "simInv s"
  shows "clockValues (run ts s) =
     map (\<lambda>k. ((tickValue ^^ Suc k) (whiteMs s), (tickValue ^^ Suc k) (blackMs s)))
       [0..<clockTicksWhileRunning (length mockMoves - moveIndex s) ts]"
  using assms
proof (induction ts arbitrary: s)
  case Nil
  then show ?case by simp
next
  case (Cons t ts)
  show ?case
  proof (cases t)
    case ClockTick
    let ?s = "snd (clockTick s)"
    from Cons.prems have o: "\<not> closed s" "clockTimer s" by (simp_all add: simInv_def)
    note e = clockTick_emits [OF o]
    note i = simInv_clockTick [OF Cons.prems]
    have sw: "(tickValue ^^ Suc k) (tickValue x) = (tickValue ^^ Suc (Suc k)) x" for k x
      by (simp add: funpow_swap1)
    have "clockValues (run (t # ts) s) =
            (tickValue (whiteMs s), tickValue (blackMs s)) # clockValues (run ts ?s)"
      using e ClockTick by simp
    also have "clockValues (run ts ?s) =
         map (\<lambda>k. ((tickValue ^^ Suc (Suc k)) (whiteMs s), (tickValue ^^ Suc (Suc k)) (blackMs s)))
           [0..<clockTicksWhileRunning (length mockMoves - moveIndex s) ts]"
      using Cons.IH [OF i(1)] by (simp only: e i(2) sw)
    finally show ?thesis
      unfolding ClockTick clockTicksWhileRunning.simps upt_shift
      by (simp add: comp_def del: upt_Suc)
  next
    case Close
    have "closed (closeSim s)" by (simp add: closeSim_def)
    then have "run (t # ts) s = []" using Close by (simp add: closed_run)
    then show ?thesis using Close by simp
  next
    case MoveTick
    show ?thesis
    proof (cases "length mockMoves \<le> moveIndex s")
      case True
      note e = simInv_moveTick_end [OF Cons.prems True]
      have "closed (snd (moveTick s))" using e(2) by (simp add: stopped_def)
      then have "run (t # ts) s = [Result ''1-0'' ''checkmate'']"
        using MoveTick e(1) by (simp add: closed_run)
      then show ?thesis using MoveTick True by simp
    next
      case False
      then have lt: "moveIndex s < length mockMoves" by simp
      note p = simInv_moveTick_play [OF Cons.prems lt]
      note m = moveTick_clock [of s]
      have "clockValues (run (t # ts) s) = clockValues (run ts (snd (moveTick s)))"
        using MoveTick m by (simp add: clockValues_append)
      also have "\<dots> = map (\<lambda>k. ((tickValue ^^ Suc k) (whiteMs s), (tickValue ^^ Suc k) (blackMs s)))
          [0..<clockTicksWhileRunning (length mockMoves - Suc (moveIndex s)) ts]"
        using Cons.IH [OF p(2)] by (simp only: m p(3))
      finally show ?thesis using MoveTick lt by simp
    qed
  qed
qed

lemma tickValue_iterates:
  assumes "x \<noteq> NaN"
  shows "(tickValue ^^ Suc k) x \<noteq> NaN \<and> isDouble ((tickValue ^^ Suc k) x)
       \<and> jsLe (Fin 0) ((tickValue ^^ Suc k) x)"
proof (induction k)
  case 0
  then show ?case using tickValue_general [OF assms] by simp
next
  case (Suc k)
  then have "(tickValue ^^ Suc k) x \<noteq> NaN" by blast
  from tickValue_general [OF this] show ?case by simp
qed

lemma tickValue_iterates_le:
  assumes "x \<noteq> NaN"
  shows "jsLe ((tickValue ^^ Suc (Suc k)) x) ((tickValue ^^ Suc k) x)"
proof -
  from tickValue_iterates [OF assms, of k]
  have "isDouble ((tickValue ^^ Suc k) x)" "jsLe (Fin 0) ((tickValue ^^ Suc k) x)"
    by blast+
  then have "jsLe (tickValue ((tickValue ^^ Suc k) x)) ((tickValue ^^ Suc k) x)"
    by (rule tickValue_le)
  then show ?thesis by simp
qed

lemma tickValue_iterates_exact:
  assumes "isDouble (Fin n)" "n < 2 ^ 56 * doubleUnit"
  shows "(tickValue ^^ Suc k) (Fin n) = Fin (max 0 (n - 200 * doubleUnit * (int k + 1)))
       \<and> isDouble (Fin (max 0 (n - 200 * doubleUnit * (int k + 1))))"
proof (induction k)
  case 0
  then show ?case using tickValue_exact [OF assms] by simp
next
  case (Suc k)
  let ?m = "max 0 (n - 200 * doubleUnit * (int k + 1))"
  have c0: "0 \<le> 200 * doubleUnit" by (simp add: doubleUnit_def)
  have u0: "0 < 2 ^ 56 * doubleUnit" by (simp add: doubleUnit_def)
  have "0 \<le> 200 * doubleUnit * (int k + 1)" using c0 by simp
  then have lt: "?m < 2 ^ 56 * doubleUnit" using assms(2) u0 by linarith
  from Suc have d: "isDouble (Fin ?m)" and e: "(tickValue ^^ Suc k) (Fin n) = Fin ?m"
    by blast+
  have "max 0 (?m - 200 * doubleUnit) = max 0 (n - 200 * doubleUnit * (int (Suc k) + 1))"
    using c0 by (simp add: algebra_simps max_def)
  with tickValue_exact [OF d lt] e show ?case by simp
qed

text \<open>
  C7, as the code has it. The clocks are doubles. In every run, each clock tick that
  finds the simulator running emits one clock event, carrying for both sides
  \<^verbatim>\<open>Math.max(0, ms - 200)\<close> of the time that remained, from the initial clock on.
  Unless the initial clock is \<^verbatim>\<open>NaN\<close>, the emitted values are never negative and
  never increase. As long as the value is a double below \<open>2\<^sup>5\<^sup>6\<close> ms the
  subtraction is exact: the values are the initial clock less 200 ms per tick so far,
  clamped at 0.
\<close>

theorem clock_values_decrease:
  "let cv = clockValues (simEvents initialMs ticks) in
     length cv = clockTicksWhileRunning (length mockMoves) ticks
   \<and> (\<forall>i < length cv.
         cv ! i = ((tickValue ^^ Suc i) initialMs, (tickValue ^^ Suc i) initialMs))
   \<and> (initialMs \<noteq> NaN \<longrightarrow>
        (\<forall>i < length cv. jsLe (Fin 0) (fst (cv ! i)) \<and> jsLe (Fin 0) (snd (cv ! i)))
      \<and> (\<forall>i. Suc i < length cv \<longrightarrow>
            jsLe (fst (cv ! Suc i)) (fst (cv ! i)) \<and> jsLe (snd (cv ! Suc i)) (snd (cv ! i))))
   \<and> (\<forall>n. initialMs = Fin n \<and> isDouble (Fin n) \<and> n < 2 ^ 56 * doubleUnit \<longrightarrow>
        (\<forall>i < length cv.
           cv ! i = (Fin (max 0 (n - 200 * doubleUnit * (int i + 1))),
                     Fin (max 0 (n - 200 * doubleUnit * (int i + 1))))))"
proof -
  define cv where "cv = clockValues (simEvents initialMs ticks)"
  define f where "f = (\<lambda>k. ((tickValue ^^ Suc k) initialMs, (tickValue ^^ Suc k) initialMs))"
  let ?n = "clockTicksWhileRunning (length mockMoves) ticks"
  have "cv = clockValues (run ticks (snd (createMockStream initialMs)))"
    by (simp add: cv_def simEvents_def createMockStream_def)
  then have eq: "cv = map f [0..<?n]"
    using run_clockValues [OF simInv_start, of ticks initialMs]
    by (simp add: createMockStream_def f_def)
  then have len: "length cv = ?n" by simp
  have nth: "cv ! i = f i" if "i < length cv" for i
  proof -
    have "cv ! i = map f [0..<?n] ! i" using eq by simp
    also have "\<dots> = f i" using that len by simp
    finally show ?thesis .
  qed
  have c2: "\<forall>i < length cv.
         cv ! i = ((tickValue ^^ Suc i) initialMs, (tickValue ^^ Suc i) initialMs)"
    using nth by (simp add: f_def)
  have c3: "(\<forall>i < length cv. jsLe (Fin 0) (fst (cv ! i)) \<and> jsLe (Fin 0) (snd (cv ! i)))
      \<and> (\<forall>i. Suc i < length cv \<longrightarrow>
            jsLe (fst (cv ! Suc i)) (fst (cv ! i)) \<and> jsLe (snd (cv ! Suc i)) (snd (cv ! i)))"
    if "initialMs \<noteq> NaN"
    using tickValue_iterates [OF that] tickValue_iterates_le [OF that]
    by (simp add: nth f_def del: funpow.simps)
  have c4: "\<forall>i < length cv.
           cv ! i = (Fin (max 0 (n - 200 * doubleUnit * (int i + 1))),
                     Fin (max 0 (n - 200 * doubleUnit * (int i + 1))))"
    if "initialMs = Fin n" "isDouble (Fin n)" "n < 2 ^ 56 * doubleUnit" for n
    using tickValue_iterates_exact [OF that(2,3)]
    by (simp add: nth f_def that(1) del: funpow.simps)
  show ?thesis
    unfolding Let_def cv_def [symmetric] using len c2 c3 c4 by blast
qed

theorem clock_values_decrease_witness:
  "num 300 = Fin (300 * doubleUnit) \<and> isDouble (num 300) \<and> 300 * doubleUnit < 2 ^ 56 * doubleUnit
   \<and> length (clockValues (simEvents (num 300) [ClockTick, MoveTick, ClockTick, ClockTick])) = 3
   \<and> clockValues (simEvents (num 300) [ClockTick, MoveTick, ClockTick, ClockTick]) ! 0
       = (num 100, num 100)
   \<and> clockValues (simEvents (num 300) [ClockTick, MoveTick, ClockTick, ClockTick]) ! 1
       = (num 0, num 0)
   \<and> jsLe (fst (clockValues (simEvents (num 300) [ClockTick, MoveTick, ClockTick, ClockTick]) ! 1))
           (fst (clockValues (simEvents (num 300) [ClockTick, MoveTick, ClockTick, ClockTick]) ! 0))"
proof -
  let ?ts = "[ClockTick, MoveTick, ClockTick, ClockTick]"
  let ?cv = "clockValues (simEvents (num 300) ?ts)"
  have n: "num 300 = Fin (300 * doubleUnit)" "num 100 = Fin (100 * doubleUnit)" "num 0 = Fin 0"
    by (simp_all add: num_small)
  have d: "isDouble (Fin (300 * doubleUnit))"
    unfolding n(1) [symmetric] num_def by (rule isDouble_roundDouble)
  have l: "300 * doubleUnit < 2 ^ 56 * doubleUnit"
    by (simp add: doubleUnit_def)
  have nn: "num 300 \<noteq> NaN" by (simp add: n)
  have c: "clockTicksWhileRunning (length mockMoves) ?ts = 3"
    by (simp add: mockMoves_def)
  note t = clock_values_decrease [of "num 300" ?ts, unfolded Let_def]
  from t c have len: "length ?cv = 3" by simp
  from t n(1) d l have ex: "\<forall>i < length ?cv.
      ?cv ! i = (Fin (max 0 (300 * doubleUnit - 200 * doubleUnit * (int i + 1))),
                 Fin (max 0 (300 * doubleUnit - 200 * doubleUnit * (int i + 1))))"
    by blast
  have v0: "?cv ! 0 = (num 100, num 100)"
    using ex len by (simp add: n doubleUnit_def)
  have v1: "?cv ! 1 = (num 0, num 0)"
    using ex len by (simp add: n doubleUnit_def)
  from t nn have "\<forall>i. Suc i < length ?cv \<longrightarrow> jsLe (fst (?cv ! Suc i)) (fst (?cv ! i))"
    by blast
  with len have le: "jsLe (fst (?cv ! 1)) (fst (?cv ! 0))" by simp
  show ?thesis
    using n(1) d l len v0 v1 le by (simp only: n(1) [symmetric])
qed

text \<open>
  C7 as worded fails: from an initial clock of \<open>10\<^sup>2\<^sup>1\<close> ms the difference
  \<open>10\<^sup>2\<^sup>1 - 200\<close> is no double and rounds back to \<open>10\<^sup>2\<^sup>1\<close>, so every tick
  emits \<open>10\<^sup>2\<^sup>1\<close> again and the clock is not decremented at all.
\<close>

theorem clock_rounding_counterexample:
  "isDouble (num (10 ^ 21)) \<and> num (10 ^ 21) = Fin (10 ^ 21 * doubleUnit)
   \<and> clockValues (simEvents (num (10 ^ 21)) [ClockTick, ClockTick])
       = [(num (10 ^ 21), num (10 ^ 21)), (num (10 ^ 21), num (10 ^ 21))]
   \<and> num (10 ^ 21) \<noteq> Fin ((10 ^ 21 - 200) * doubleUnit)"
proof -
  have s1: "shiftOf 1000000000000000000000 = 17" "shiftOf 999999999999999999800 = 17"
    by (simp_all add: shiftOf.simps)
  have r: "roundNat 1000000000000000000000 = 1000000000000000000000"
    "roundNat 999999999999999999800 = 1000000000000000000000"
    by (simp_all add: roundNat_def s1)
  have b: "(1000000000000000000000::nat) * 2 ^ 1074 < 2 ^ 2098" by simp
  have n: "num 1000000000000000000000 = Fin (1000000000000000000000 * doubleUnit)"
    unfolding num_def using roundDouble_scaled [of 1000000000000000000000] b by (simp add: r)
  have m: "minus200 (Fin (1000000000000000000000 * doubleUnit))
             = Fin (1000000000000000000000 * doubleUnit)"
  proof -
    have "1000000000000000000000 * doubleUnit - 200 * doubleUnit
            = 999999999999999999800 * doubleUnit"
      by (simp add: algebra_simps)
    then show ?thesis
      unfolding minus200_def using roundDouble_scaled [of 999999999999999999800] b
      by (simp add: r)
  qed
  have t: "tickValue (num 1000000000000000000000) = num 1000000000000000000000"
    unfolding tickValue_def n m by (simp add: mathMax0_def doubleUnit_def)
  have d: "isDouble (num 1000000000000000000000)"
    unfolding num_def by (rule isDouble_roundDouble)
  have e: "clockValues (simEvents x [ClockTick, ClockTick])
             = [(tickValue x, tickValue x), (tickValue (tickValue x), tickValue (tickValue x))]" for x
    by (simp add: simEvents_def createMockStream_def clockTick_def Let_def)
  have ne: "num 1000000000000000000000 \<noteq> Fin (999999999999999999800 * doubleUnit)"
    by (simp add: n doubleUnit_def)
  show ?thesis
    using d [unfolded n] ne [unfolded n] by (simp add: e n t [unfolded n])
qed

section \<open>Applying a move code\<close>

lemma below8: "n < (8::nat) \<Longrightarrow> n \<in> {0, 1, 2, 3, 4, 5, 6, 7}"
  by auto

lemma fileIndex_file: "c < 8 \<Longrightarrow> fileIndex (''abcdefgh'' ! c) = int c"
  using below8 [of c] by (auto simp: fileIndex_def)

lemma rank_digit: "r < 8 \<Longrightarrow> showNat (8 - r) = [digitChar (8 - r)] \<and> numberOfChar (digitChar (8 - r)) = Some (8 - int r)"
  using below8 [of r] by (auto simp: showNat.simps digitChar_def numberOfChar_def)

lemma squareToCoords_square:
  "c < 8 \<Longrightarrow> r < 8 \<Longrightarrow> squareToCoords (coordsToSquare c r) = (Some (int r), int c)"
  by (simp add: squareToCoords_def coordsToSquare_def rank_digit fileIndex_file)

lemma length_square: "c < 8 \<Longrightarrow> r < 8 \<Longrightarrow> length (coordsToSquare c r) = 2"
  by (simp add: coordsToSquare_def rank_digit)

lemma square_eq:
  assumes "c < 8" "r < 8" "c' < 8" "r' < 8"
  shows "(coordsToSquare c r = coordsToSquare c' r') = (c = c' \<and> r = r')"
proof
  assume "coordsToSquare c r = coordsToSquare c' r'"
  then have "squareToCoords (coordsToSquare c r) = squareToCoords (coordsToSquare c' r')"
    by simp
  with assms show "c = c' \<and> r = r'" by (simp add: squareToCoords_square)
qed simp

lemma named_squares:
  "coordsToSquare 4 7 = ''e1''" "coordsToSquare 6 7 = ''g1''" "coordsToSquare 2 7 = ''c1''"
  "coordsToSquare 4 0 = ''e8''" "coordsToSquare 6 0 = ''g8''" "coordsToSquare 2 0 = ''c8''"
  by (simp_all add: coordsToSquare_def showNat.simps digitChar_def)

lemma grid8_put: "grid8 b \<Longrightarrow> grid8 (put b r c v)"
  by (cases "r < length b") (auto simp: grid8_def put_def list_all_length nth_list_update)

lemma grid8_row: "grid8 b \<Longrightarrow> r < 8 \<Longrightarrow> length (b ! r) = 8"
  by (simp add: grid8_def list_all_length)

lemma cell_put:
  "grid8 b \<Longrightarrow> r < 8 \<Longrightarrow> c < 8 \<Longrightarrow> r' < 8 \<Longrightarrow> c' < 8 \<Longrightarrow>
   put b r c v ! r' ! c' = (if r' = r \<and> c' = c then v else b ! r' ! c')"
  by (auto simp: put_def grid8_def list_all_length nth_list_update)

lemma readCell_grid:
  "grid8 b \<Longrightarrow> r < 8 \<Longrightarrow> c < 8 \<Longrightarrow> readCell b (Some (int r)) (int c) = Inr (b ! r ! c)"
  by (simp add: readCell_def rowAt_def cellAt_def grid8_row) (simp add: grid8_def)

lemma writeCell_grid:
  "grid8 b \<Longrightarrow> r < 8 \<Longrightarrow> c < 8 \<Longrightarrow> writeCell b (Some (int r)) (int c) v = (put b r c v, None)"
  by (simp add: writeCell_def rowAt_def setCell_def put_def grid8_row) (simp add: grid8_def)

lemma rookHop_grid:
  assumes "grid8 b" "r < 8" "corner < 8" "dest < 8"
  shows "rookHop (int r) (int corner) (int dest) b
           = (put (put b r dest (b ! r ! corner)) r corner None, None)"
  using assms by (simp add: rookHop_def readCell_grid writeCell_grid grid8_put)


lemma uci_parts:
  assumes "fc < 8" "fr < 8" "tc < 8" "tr < 8" "length promo \<le> 1"
  shows "take 2 (coordsToSquare fc fr @ coordsToSquare tc tr @ promo) = coordsToSquare fc fr"
    and "take 2 (drop 2 (coordsToSquare fc fr @ coordsToSquare tc tr @ promo)) = coordsToSquare tc tr"
    and "(length (coordsToSquare fc fr @ coordsToSquare tc tr @ promo) > 4) = (promo \<noteq> [])"
    and "promo \<noteq> [] \<Longrightarrow> [(coordsToSquare fc fr @ coordsToSquare tc tr @ promo) ! 4] = promo"
proof -
  show "take 2 (coordsToSquare fc fr @ coordsToSquare tc tr @ promo) = coordsToSquare fc fr"
    using assms by (simp add: length_square)
  show "take 2 (drop 2 (coordsToSquare fc fr @ coordsToSquare tc tr @ promo)) = coordsToSquare tc tr"
    using assms by (simp add: length_square)
  show "(length (coordsToSquare fc fr @ coordsToSquare tc tr @ promo) > 4) = (promo \<noteq> [])"
    using assms by (simp add: length_square)
  show "[(coordsToSquare fc fr @ coordsToSquare tc tr @ promo) ! 4] = promo" if "promo \<noteq> []"
  proof -
    from that assms(5) obtain p where "promo = [p]"
      by (cases promo) auto
    then show ?thesis
      using assms by (simp add: nth_append length_square)
  qed
qed

lemma applyUciMove_boardAfter:
  assumes "grid8 board" "fc < 8" "fr < 8" "tc < 8" "tr < 8" "length promo \<le> 1"
    "board ! fr ! fc = Some piece" "piece \<noteq> []"
  shows "applyUciMove board (coordsToSquare fc fr @ coordsToSquare tc tr @ promo)
     = (boardAfter board (fr, fc) (tr, tc) (movedPiece piece promo)
          (castleHop piece (coordsToSquare fc fr) (coordsToSquare tc tr)), None)"
proof -
  define uci where "uci = coordsToSquare fc fr @ coordsToSquare tc tr @ promo"
  define F where "F = coordsToSquare fc fr"
  define T where "T = coordsToSquare tc tr"
  let ?b1 = "put board fr fc None"
  have u: "take 2 uci = F" "take 2 (drop 2 uci) = T" "(4 < length uci) = (promo \<noteq> [])"
    using uci_parts(1-3) [OF assms(2-6)] by (simp_all add: uci_def F_def T_def)
  have u4: "[uci ! 4] = promo" if "promo \<noteq> []"
    using uci_parts(4) [OF assms(2-6) that] by (simp add: uci_def)
  have co: "squareToCoords F = (Some (int fr), int fc)" "squareToCoords T = (Some (int tr), int tc)"
    using assms by (simp_all add: F_def T_def squareToCoords_square)
  have g1: "grid8 ?b1" using assms(1) by (rule grid8_put)
  have hop: "rookHop (int r) (int corner) (int dest) ?b1
           = (put (put ?b1 r dest (?b1 ! r ! corner)) r corner None, None)"
    if "r < 8" "corner < 8" "dest < 8" for r corner dest
    using g1 that by (rule rookHop_grid)
  have g2: "grid8 (put (put ?b1 r dest v) r corner None)" for r dest corner v
    by (intro grid8_put assms(1))
  have rd: "readCell board (Some (int fr)) (int fc) = Inr (Some piece)"
    using assms by (simp add: readCell_grid)
  have w1: "writeCell board (Some (int fr)) (int fc) None = (?b1, None)"
    using assms by (simp add: writeCell_grid)
  have w2: "writeCell b (Some (int tr)) (int tc) v = (put b tr tc v, None)" if "grid8 b" for b v
    using that assms by (simp add: writeCell_grid)
  have "applyUciMove board uci
     = (boardAfter board (fr, fc) (tr, tc) (movedPiece piece promo) (castleHop piece F T), None)"
  proof (cases "promo = []")
    case True
    then show ?thesis
      using assms(8) hop [of 7 7 5] hop [of 7 0 3] hop [of 0 7 5] hop [of 0 0 3]
      by (simp add: applyUciMove_def u co rd w1 w2 g1 g2 falsy_def Let_def boardAfter_def
          castleHop_def movedPiece_def)
  next
    case False
    then show ?thesis
      using assms(8) hop [of 7 7 5] hop [of 7 0 3] hop [of 0 7 5] hop [of 0 0 3] u4
      by (simp add: applyUciMove_def u co rd w1 w2 g1 g2 falsy_def Let_def boardAfter_def
          castleHop_def movedPiece_def)
  qed
  then show ?thesis by (simp add: uci_def F_def T_def)
qed

lemma cellAfter_boardAfter:
  assumes "grid8 board" "fc < 8" "fr < 8" "tc < 8" "tr < 8" "r < 8" "c < 8"
    "hop = None \<or> hop = Some (7, 7, 5) \<or> hop = Some (7, 0, 3) \<or> hop = Some (0, 7, 5)
      \<or> hop = Some (0, 0, 3)"
    "hop = Some (7, 7, 5) \<longrightarrow> (fr, fc) = (7, 4) \<and> (tr, tc) = (7, 6)"
    "hop = Some (7, 0, 3) \<longrightarrow> (fr, fc) = (7, 4) \<and> (tr, tc) = (7, 2)"
    "hop = Some (0, 7, 5) \<longrightarrow> (fr, fc) = (0, 4) \<and> (tr, tc) = (0, 6)"
    "hop = Some (0, 0, 3) \<longrightarrow> (fr, fc) = (0, 4) \<and> (tr, tc) = (0, 2)"
  shows "boardAfter board (fr, fc) (tr, tc) moved hop ! r ! c
           = cellAfter board (fr, fc) (tr, tc) moved hop r c"
proof -
  from assms(8) show ?thesis
  proof (elim disjE)
    assume "hop = None"
    then show ?thesis
      using assms(1-7) by (simp add: boardAfter_def cellAfter_def cell_put grid8_put)
  next
    assume h: "hop = Some (7, 7, 5)"
    with assms(9) show ?thesis
      using assms(1-7) by (simp add: boardAfter_def cellAfter_def cell_put grid8_put)
  next
    assume h: "hop = Some (7, 0, 3)"
    with assms(10) show ?thesis
      using assms(1-7) by (simp add: boardAfter_def cellAfter_def cell_put grid8_put)
  next
    assume h: "hop = Some (0, 7, 5)"
    with assms(11) show ?thesis
      using assms(1-7) by (simp add: boardAfter_def cellAfter_def cell_put grid8_put)
  next
    assume h: "hop = Some (0, 0, 3)"
    with assms(12) show ?thesis
      using assms(1-7) by (simp add: boardAfter_def cellAfter_def cell_put grid8_put)
  qed
qed

lemma grid8_boardAfter: "grid8 board \<Longrightarrow> grid8 (boardAfter board fromRC toRC moved hop)"
  by (auto simp: boardAfter_def Let_def grid8_put split: option.splits)

lemma castleHop_squares:
  assumes "fc < 8" "fr < 8" "tc < 8" "tr < 8"
    and hop_def: "hop = castleHop piece (coordsToSquare fc fr) (coordsToSquare tc tr)"
  shows "hop = None \<or> hop = Some (7, 7, 5) \<or> hop = Some (7, 0, 3) \<or> hop = Some (0, 7, 5)
      \<or> hop = Some (0, 0, 3)"
    and "hop = Some (7, 7, 5) \<longrightarrow> (fr, fc) = (7, 4) \<and> (tr, tc) = (7, 6)"
    and "hop = Some (7, 0, 3) \<longrightarrow> (fr, fc) = (7, 4) \<and> (tr, tc) = (7, 2)"
    and "hop = Some (0, 7, 5) \<longrightarrow> (fr, fc) = (0, 4) \<and> (tr, tc) = (0, 6)"
    and "hop = Some (0, 0, 3) \<longrightarrow> (fr, fc) = (0, 4) \<and> (tr, tc) = (0, 2)"
proof -
  have e: "(coordsToSquare fc fr = ''e1'') = (fc = 4 \<and> fr = 7)"
    "(coordsToSquare fc fr = ''e8'') = (fc = 4 \<and> fr = 0)"
    "(coordsToSquare tc tr = ''g1'') = (tc = 6 \<and> tr = 7)"
    "(coordsToSquare tc tr = ''c1'') = (tc = 2 \<and> tr = 7)"
    "(coordsToSquare tc tr = ''g8'') = (tc = 6 \<and> tr = 0)"
    "(coordsToSquare tc tr = ''c8'') = (tc = 2 \<and> tr = 0)"
    using assms(1-4) square_eq [of fc fr 4 7] square_eq [of fc fr 4 0] square_eq [of tc tr 6 7]
      square_eq [of tc tr 2 7] square_eq [of tc tr 6 0] square_eq [of tc tr 2 0]
    by (simp_all add: named_squares)
  show "hop = None \<or> hop = Some (7, 7, 5) \<or> hop = Some (7, 0, 3) \<or> hop = Some (0, 7, 5)
      \<or> hop = Some (0, 0, 3)"
    by (simp add: hop_def castleHop_def)
  show "hop = Some (7, 7, 5) \<longrightarrow> (fr, fc) = (7, 4) \<and> (tr, tc) = (7, 6)"
    by (simp add: hop_def castleHop_def e)
  show "hop = Some (7, 0, 3) \<longrightarrow> (fr, fc) = (7, 4) \<and> (tr, tc) = (7, 2)"
    by (simp add: hop_def castleHop_def e)
  show "hop = Some (0, 7, 5) \<longrightarrow> (fr, fc) = (0, 4) \<and> (tr, tc) = (0, 6)"
    by (simp add: hop_def castleHop_def e)
  show "hop = Some (0, 0, 3) \<longrightarrow> (fr, fc) = (0, 4) \<and> (tr, tc) = (0, 2)"
    by (simp add: hop_def castleHop_def e)
qed

text \<open>
  C5, as the code has it. On a board of 8 rows of 8 cells, a move code made of two
  different squares of the board and at most one promotion character, whose from square
  is occupied, is applied without an exception: the to square then holds the moved
  piece (with a promotion character, that letter in upper case when the piece equals
  its own upper-case form and in lower case otherwise), the from square is empty, and,
  only when the piece is the king of that side (\<^verbatim>\<open>K\<close> for \<^verbatim>\<open>e1g1\<close> and \<^verbatim>\<open>e1c1\<close>,
  \<^verbatim>\<open>k\<close> for \<^verbatim>\<open>e8g8\<close> and \<^verbatim>\<open>e8c8\<close>), the content of the corner square is carried to
  the square the king passed over and the corner is emptied. Every other cell is
  unchanged.
\<close>

theorem applyUciMove_relocates:
  assumes "grid8 board" "fc < 8" "fr < 8" "tc < 8" "tr < 8" "(fr, fc) \<noteq> (tr, tc)"
    "length promo \<le> 1" "board ! fr ! fc = Some piece" "piece \<noteq> []"
  shows "\<exists>b'. applyUciMove board (coordsToSquare fc fr @ coordsToSquare tc tr @ promo) = (b', None)
     \<and> grid8 b'
     \<and> b' ! tr ! tc = Some (movedPiece piece promo)
     \<and> b' ! fr ! fc = None
     \<and> (\<forall>r < 8. \<forall>c < 8. b' ! r ! c =
           cellAfter board (fr, fc) (tr, tc) (movedPiece piece promo)
             (castleHop piece (coordsToSquare fc fr) (coordsToSquare tc tr)) r c)"
proof -
  let ?hop = "castleHop piece (coordsToSquare fc fr) (coordsToSquare tc tr)"
  let ?b = "boardAfter board (fr, fc) (tr, tc) (movedPiece piece promo) ?hop"
  note h = castleHop_squares [OF assms(2-5) refl, of piece]
  have a: "applyUciMove board (coordsToSquare fc fr @ coordsToSquare tc tr @ promo) = (?b, None)"
    using assms by (intro applyUciMove_boardAfter) auto
  have c: "?b ! r ! c = cellAfter board (fr, fc) (tr, tc) (movedPiece piece promo) ?hop r c"
    if "r < 8" "c < 8" for r c
    using assms(1-5) that h by (rule cellAfter_boardAfter)
  have "?b ! tr ! tc = Some (movedPiece piece promo)"
    using c [OF assms(5,4)] by (simp add: cellAfter_def)
  moreover have "?b ! fr ! fc = None"
    using c [OF assms(3,2)] assms(6) by (simp add: cellAfter_def)
  ultimately show ?thesis
    using a c grid8_boardAfter [OF assms(1)] by blast
qed

theorem applyUciMove_relocates_witness:
  "grid8 kingBoard \<and> kingBoard ! 7 ! 4 = Some ''K'' \<and> kingBoard ! 1 ! 0 = Some ''P''
   \<and> (\<exists>b'. applyUciMove kingBoard ''e1g1'' = (b', None)
         \<and> b' ! 7 ! 6 = Some ''K'' \<and> b' ! 7 ! 4 = None
         \<and> b' ! 7 ! 5 = Some ''R'' \<and> b' ! 7 ! 7 = None \<and> b' ! 0 ! 4 = Some ''k'')
   \<and> (\<exists>b'. applyUciMove kingBoard ''a7a8q'' = (b', None)
         \<and> b' ! 0 ! 0 = Some ''Q'' \<and> b' ! 1 ! 0 = None)"
proof -
  have g: "grid8 kingBoard"
    by (simp add: grid8_def kingBoard_def)
  have k: "kingBoard ! 7 ! 4 = Some ''K''" "kingBoard ! 1 ! 0 = Some ''P''"
    "kingBoard ! 7 ! 7 = Some ''R''" "kingBoard ! 0 ! 4 = Some ''k''"
    by (simp_all add: kingBoard_def)
  have sq: "coordsToSquare 4 7 @ coordsToSquare 6 7 @ [] = ''e1g1''"
    "coordsToSquare 0 1 @ coordsToSquare 0 0 @ ''q'' = ''a7a8q''"
    by (simp_all add: coordsToSquare_def showNat.simps digitChar_def)
  have mp: "movedPiece ''K'' [] = ''K''" "movedPiece ''P'' ''q'' = ''Q''"
    by code_simp+
  have hop: "castleHop ''K'' (coordsToSquare 4 7) (coordsToSquare 6 7) = Some (7, 7, 5)"
    "castleHop ''P'' (coordsToSquare 0 1) (coordsToSquare 0 0) = None"
    by (simp_all add: castleHop_def named_squares)
  from applyUciMove_relocates [of kingBoard 4 7 6 7 "[]" "''K''"] g k(1)
  obtain b1 where b1: "applyUciMove kingBoard ''e1g1'' = (b1, None)"
    "b1 ! 7 ! 6 = Some ''K''" "b1 ! 7 ! 4 = None"
    "\<forall>r < 8. \<forall>c < 8. b1 ! r ! c = cellAfter kingBoard (7, 4) (7, 6) ''K'' (Some (7, 7, 5)) r c"
    unfolding sq mp hop by auto
  have c1: "b1 ! 7 ! 5 = Some ''R''" "b1 ! 7 ! 7 = None" "b1 ! 0 ! 4 = Some ''k''"
    using b1(4) k by (simp_all add: cellAfter_def)
  from applyUciMove_relocates [of kingBoard 0 1 0 0 "''q''" "''P''"] g k(2)
  obtain b2 where b2: "applyUciMove kingBoard ''a7a8q'' = (b2, None)"
    "b2 ! 0 ! 0 = Some ''Q''" "b2 ! 1 ! 0 = None"
    unfolding sq mp hop by auto
  show ?thesis
    using g k(1,2) b1(1-3) c1 b2 by blast
qed

text \<open>
  C5 as worded fails: with a queen on e1 and a rook on h1 the code \<^verbatim>\<open>e1g1\<close> is one of
  the four castling codes and its from square is occupied, yet the rook stays on h1 and
  f1 stays empty, because the castling branch asks for the piece to be the king.
\<close>

theorem castling_code_counterexample:
  "grid8 queenBoard \<and> queenBoard ! 7 ! 4 = Some ''Q'' \<and> queenBoard ! 7 ! 7 = Some ''R''
   \<and> snd (applyUciMove queenBoard ''e1g1'') = None
   \<and> fst (applyUciMove queenBoard ''e1g1'') ! 7 ! 6 = Some ''Q''
   \<and> fst (applyUciMove queenBoard ''e1g1'') ! 7 ! 7 = Some ''R''
   \<and> fst (applyUciMove queenBoard ''e1g1'') ! 7 ! 5 = None"
proof -
  have g: "grid8 queenBoard"
    by (simp add: grid8_def queenBoard_def)
  have a: "applyUciMove queenBoard ''e1g1'' =
    ([[None, None, None, None, Some ''k'', None, None, None],
      [None, None, None, None, None, None, None, None],
      [None, None, None, None, None, None, None, None],
      [None, None, None, None, None, None, None, None],
      [None, None, None, None, None, None, None, None],
      [None, None, None, None, None, None, None, None],
      [None, None, None, None, None, None, None, None],
      [None, None, None, Some ''K'', None, None, Some ''Q'', Some ''R'']], None)"
    by code_simp
  show ?thesis
    using g by (simp add: a) (simp add: queenBoard_def)
qed

section \<open>Move-list text\<close>













lemma strip_prefix: "l \<notin> set a \<Longrightarrow> stripDelimited l r (a @ x) = a @ stripDelimited l r x"
  by (induction a) auto


lemma strip_none: "l \<notin> set a \<Longrightarrow> stripDelimited l r a = a"
  using strip_prefix [of l a r "[]"] by simp



end
